theory Spec2Isabelle
  imports Main
begin

section \<open>Klax 3D: the match simulation engine of \<^verbatim>\<open>games/klax-3d/js/game.js\<close>\<close>

text \<open>
  The engine is a class whose fields are mutated in place by its methods. It is embedded
  as a record of those fields, and every method as a function from the record to the
  updated record. JavaScript numbers that only ever hold integers (score, level, lives,
  columns, colour indices, counters, the seed) are \<^typ>\<open>int\<close>; loop indices into the
  well are \<^typ>\<open>nat\<close>. The value \<^verbatim>\<open>null\<close> of an empty well cell is \<^term>\<open>None\<close>.
\<close>

subsection \<open>Constants\<close>

abbreviation WELL_COLS :: nat where "WELL_COLS \<equiv> 5"
abbreviation WELL_ROWS :: nat where "WELL_ROWS \<equiv> 5"
abbreviation RACK_CAPACITY :: nat where "RACK_CAPACITY \<equiv> 5"
abbreviation INITIAL_LIVES :: int where "INITIAL_LIVES \<equiv> 3"
abbreviation LEVEL_UP_THRESHOLD :: int where "LEVEL_UP_THRESHOLD \<equiv> 1000"
abbreviation BASE_SPAWN_INTERVAL :: int where "BASE_SPAWN_INTERVAL \<equiv> 120"
abbreviation MIN_SPAWN_INTERVAL :: int where "MIN_SPAWN_INTERVAL \<equiv> 30"
abbreviation COLORS_length :: int where "COLORS_length \<equiv> 6"

subsection \<open>Data model\<close>

type_synonym cell = "int option"

text \<open>\<^verbatim>\<open>well[col][row]\<close>: a list of columns, each a list of rows; row 0 is the top.\<close>

type_synonym well = "cell list list"

datatype match_type = Horizontal | Vertical | Diagonal_dr | Diagonal_dl

text \<open>
  A match object \<^verbatim>\<open>{ type, tiles, colorIndex }\<close>. The tiles of a well match are
  \<^verbatim>\<open>[col, row]\<close> pairs; the tiles of a rack match (\<^verbatim>\<open>type: 'rack'\<close>) are the
  colour indices spliced out of the rack.
\<close>

datatype match =
    WellMatch match_type "(nat \<times> nat) list" int
  | RackMatch "int list" int

fun tiles_length :: "match \<Rightarrow> nat" where
  "tiles_length (WellMatch t cells c) = length cells"
| "tiles_length (RackMatch cs c) = length cs"

fun well_tiles :: "match \<Rightarrow> (nat \<times> nat) list" where
  "well_tiles (WellMatch t cells c) = cells"
| "well_tiles (RackMatch cs c) = []"

text \<open>
  The event objects. \<^verbatim>\<open>TILE_SPAWN\<close> holds a reference to the tile object, which is
  represented by the tile's id.
\<close>

datatype event =
    TILE_SPAWN int
  | CATCH int
  | DROP int int
  | TILE_FALL int int
  | MATCH "match list" int
  | LIFE_LOST int string
  | LEVEL_UP int
  | GAME_OVER int int

text \<open>
  A conveyor tile. Its position is the only floating-point quantity of the engine's
  state; its type is left as a parameter \<^typ>\<open>'p\<close>, and the arithmetic on it is passed
  to the functions that need it (see \<open>pos_ops\<close> below).
\<close>

record 'p tile =
  tile_id :: int
  position :: 'p
  colorIndex :: int
  column :: int

record 'p game =
  seed :: int
  score :: int
  level :: int
  lives :: int
  paused :: bool
  gameOver :: bool
  conveyorTiles :: "'p tile list"
  nextTileId :: int
  spawnTimer :: int
  catcherColumn :: int
  rack :: "int list"
  well :: well
  events :: "event list"
  frameCount :: int

subsection \<open>Well match detection: \<^verbatim>\<open>findMatches\<close>\<close>

text \<open>
  The four inner \<^verbatim>\<open>while\<close> loops that extend a run from its first cell. Each starts
  with \<^verbatim>\<open>length = 1\<close>.
\<close>

function hLength :: "well \<Rightarrow> nat \<Rightarrow> nat \<Rightarrow> int \<Rightarrow> nat \<Rightarrow> nat" where
  "hLength w col row color len =
     (if col + len < WELL_COLS \<and> w ! (col + len) ! row = Some color
      then hLength w col row color (Suc len) else len)"
  by pat_completeness auto
termination
  by (relation "measure (\<lambda>(w, col, row, color, len). WELL_COLS - (col + len))") auto

function vLength :: "well \<Rightarrow> nat \<Rightarrow> nat \<Rightarrow> int \<Rightarrow> nat \<Rightarrow> nat" where
  "vLength w col row color len =
     (if row + len < WELL_ROWS \<and> w ! col ! (row + len) = Some color
      then vLength w col row color (Suc len) else len)"
  by pat_completeness auto
termination
  by (relation "measure (\<lambda>(w, col, row, color, len). WELL_ROWS - (row + len))") auto

function drLength :: "well \<Rightarrow> nat \<Rightarrow> nat \<Rightarrow> int \<Rightarrow> nat \<Rightarrow> nat" where
  "drLength w col row color len =
     (if col + len < WELL_COLS \<and> row + len < WELL_ROWS \<and>
         w ! (col + len) ! (row + len) = Some color
      then drLength w col row color (Suc len) else len)"
  by pat_completeness auto
termination
  by (relation "measure (\<lambda>(w, col, row, color, len). WELL_ROWS - (row + len))") auto

function dlLength :: "well \<Rightarrow> nat \<Rightarrow> nat \<Rightarrow> int \<Rightarrow> nat \<Rightarrow> nat" where
  "dlLength w col row color len =
     (if len \<le> col \<and> row + len < WELL_ROWS \<and>
         w ! (col - len) ! (row + len) = Some color
      then dlLength w col row color (Suc len) else len)"
  by pat_completeness auto
termination
  by (relation "measure (\<lambda>(w, col, row, color, len). WELL_ROWS - (row + len))") auto

declare hLength.simps [simp del] vLength.simps [simp del]
  drLength.simps [simp del] dlLength.simps [simp del]

text \<open>
  The horizontal scan of one row: the \<^verbatim>\<open>for (col = 0; col <= WELL_COLS - 3; col++)\<close>
  loop. After a run of \<open>len\<close> cells the body adds \<open>len - 1\<close> to \<open>col\<close> before the
  loop's own increment.
\<close>

function hScan :: "well \<Rightarrow> nat \<Rightarrow> nat \<Rightarrow> match list" where
  "hScan w row col =
     (if col \<le> WELL_COLS - 3 then
        (case w ! col ! row of
           None \<Rightarrow> hScan w row (col + 1)
         | Some color \<Rightarrow>
             (if 3 \<le> hLength w col row color 1
              then WellMatch Horizontal
                     (map (\<lambda>i. (col + i, row)) [0..<hLength w col row color 1]) color
                   # hScan w row (col + (hLength w col row color 1 - 1) + 1)
              else hScan w row (col + 1)))
      else [])"
  by pat_completeness auto
termination
  by (relation "measure (\<lambda>(w, row, col). 3 - col)") auto

text \<open>The vertical scan of one column, with the same skip on \<open>row\<close>.\<close>

function vScan :: "well \<Rightarrow> nat \<Rightarrow> nat \<Rightarrow> match list" where
  "vScan w col row =
     (if row \<le> WELL_ROWS - 3 then
        (case w ! col ! row of
           None \<Rightarrow> vScan w col (row + 1)
         | Some color \<Rightarrow>
             (if 3 \<le> vLength w col row color 1
              then WellMatch Vertical
                     (map (\<lambda>i. (col, row + i)) [0..<vLength w col row color 1]) color
                   # vScan w col (row + (vLength w col row color 1 - 1) + 1)
              else vScan w col (row + 1)))
      else [])"
  by pat_completeness auto
termination
  by (relation "measure (\<lambda>(w, col, row). 3 - row)") auto

declare hScan.simps [simp del] vScan.simps [simp del]

text \<open>
  The bodies of the two diagonal scans. Neither changes its loop variables, so each
  start cell is examined on its own and contributes no match or one.
\<close>

definition drAt :: "well \<Rightarrow> nat \<Rightarrow> nat \<Rightarrow> match list" where
  "drAt w col row =
     (case w ! col ! row of
        None \<Rightarrow> []
      | Some color \<Rightarrow>
          (if 3 \<le> drLength w col row color 1
           then [WellMatch Diagonal_dr
                   (map (\<lambda>i. (col + i, row + i)) [0..<drLength w col row color 1]) color]
           else []))"

definition dlAt :: "well \<Rightarrow> nat \<Rightarrow> nat \<Rightarrow> match list" where
  "dlAt w col row =
     (case w ! col ! row of
        None \<Rightarrow> []
      | Some color \<Rightarrow>
          (if 3 \<le> dlLength w col row color 1
           then [WellMatch Diagonal_dl
                   (map (\<lambda>i. (col - i, row + i)) [0..<dlLength w col row color 1]) color]
           else []))"

definition findMatches :: "well \<Rightarrow> match list" where
  "findMatches w =
     concat (map (\<lambda>row. hScan w row 0) [0..<WELL_ROWS])
     @ concat (map (\<lambda>col. vScan w col 0) [0..<WELL_COLS])
     @ concat (map (\<lambda>col. concat (map (\<lambda>row. drAt w col row) [0..<WELL_ROWS - 3 + 1]))
                 [0..<WELL_COLS - 3 + 1])
     @ concat (map (\<lambda>col. concat (map (\<lambda>row. dlAt w col row) [0..<WELL_ROWS - 3 + 1]))
                 [2..<WELL_COLS])"

subsection \<open>Match resolution: \<^verbatim>\<open>checkMatches\<close>, \<^verbatim>\<open>applyGravity\<close>, \<^verbatim>\<open>checkLevelUp\<close>\<close>

definition clearCell :: "nat \<times> nat \<Rightarrow> well \<Rightarrow> well" where
  "clearCell cr w = (case cr of (col, row) \<Rightarrow> w[col := (w ! col)[row := None]])"

definition clearMatch :: "match \<Rightarrow> well \<Rightarrow> well" where
  "clearMatch m w = fold clearCell (well_tiles m) w"

text \<open>The size-to-points table; a size below 3 adds nothing.\<close>

definition matchPoints :: "nat \<Rightarrow> int" where
  "matchPoints n = (if n = 3 then 100 else if n = 4 then 300
                    else if 5 \<le> n then 600 else 0)"

text \<open>
  One column of \<^verbatim>\<open>applyGravity\<close>: \<open>compacted\<close> collects the non-empty cells from the
  bottom row upwards, and row \<open>row\<close> is rebuilt from index \<open>WELL_ROWS - 1 - row\<close>.
\<close>

definition compacted :: "cell list \<Rightarrow> cell list" where
  "compacted c = filter (\<lambda>x. x \<noteq> None) (map (\<lambda>row. c ! row) (rev [0..<WELL_ROWS]))"

definition gravityColumn :: "cell list \<Rightarrow> cell list" where
  "gravityColumn c =
     map (\<lambda>row. if WELL_ROWS - 1 - row < length (compacted c)
                then compacted c ! (WELL_ROWS - 1 - row) else None) [0..<WELL_ROWS]"

definition applyGravity :: "'p game \<Rightarrow> 'p game" where
  "applyGravity g = g\<lparr>well := map (\<lambda>col. gravityColumn (well g ! col)) [0..<WELL_COLS]\<rparr>"

definition checkLevelUp :: "'p game \<Rightarrow> 'p game" where
  "checkLevelUp g =
     (let newLevel = score g div LEVEL_UP_THRESHOLD + 1 in
      if newLevel > level g
      then g\<lparr>level := newLevel, events := events g @ [LEVEL_UP newLevel]\<rparr>
      else g)"

definition totalPoints :: "match list \<Rightarrow> int" where
  "totalPoints matches = fold (\<lambda>m points. points + matchPoints (tiles_length m)) matches 0"

definition checkMatches :: "'p game \<Rightarrow> 'p game" where
  "checkMatches g =
     (let matches = findMatches (well g) in
      if 0 < length matches then
        checkLevelUp (applyGravity
          (g\<lparr>well := fold clearMatch matches (well g),
             score := score g + totalPoints matches,
             events := events g @ [MATCH matches (totalPoints matches)]\<rparr>))
      else g)"

subsection \<open>The seeded generator: \<^verbatim>\<open>SeededRNG\<close>\<close>

text \<open>
  JavaScript's \<^verbatim>\<open>%\<close> takes the sign of the dividend.
\<close>

definition js_rem :: "int \<Rightarrow> int \<Rightarrow> int" where
  "js_rem a b = sgn a * (\<bar>a\<bar> mod \<bar>b\<bar>)"

text \<open>
  \<^verbatim>\<open>next()\<close> stores \<^verbatim>\<open>(seed * 9301 + 49297) % 233280\<close> and returns the stored seed
  divided by 233280. \<^verbatim>\<open>nextInt(min, max)\<close> is
  \<^verbatim>\<open>Math.floor(this.next() * (max - min + 1)) + min\<close>, the floor of a quotient of
  integers; it is computed here with integer division, which agrees with the
  double-precision result for every stored seed (of absolute value below 233280) and
  every range the engine asks for. The seed is an integer. For a seed so large that
  \<^verbatim>\<open>seed * 9301 + 49297\<close> is rounded in double precision (the default
  \<^verbatim>\<open>Date.now()\<close> is), the first stored seed is another integer of the same range;
  no property below depends on the values that are drawn.
\<close>

definition rng_next :: "'p game \<Rightarrow> 'p game" where
  "rng_next g = g\<lparr>seed := js_rem (seed g * 9301 + 49297) 233280\<rparr>"

definition nextInt :: "int \<Rightarrow> int \<Rightarrow> 'p game \<Rightarrow> int \<times> 'p game" where
  "nextInt lo hi g =
     (let g' = rng_next g in ((seed g' * (hi - lo + 1)) div 233280 + lo, g'))"

subsection \<open>Position arithmetic\<close>

text \<open>
  The floating-point operations on a tile's position: the literal \<^verbatim>\<open>0\<close> of a new
  tile, \<^verbatim>\<open>getTileSpeed()\<close> as a function of the level
  (\<^verbatim>\<open>Math.min(BASE_TILE_SPEED + (level - 1) * 0.02, MAX_TILE_SPEED)\<close>), the addition of
  \<^verbatim>\<open>tile.position += speed\<close> and the test \<^verbatim>\<open>tile.position >= CONVEYOR_LENGTH\<close>.
  The engine's functions take them as a parameter, so that every result below holds
  for IEEE doubles as for any other arithmetic.
\<close>

record 'p pos_ops =
  pos_zero :: 'p
  pos_speed :: "int \<Rightarrow> 'p"
  pos_add :: "'p \<Rightarrow> 'p \<Rightarrow> 'p"
  pos_at_end :: "'p \<Rightarrow> bool"

text \<open>Exact arithmetic in hundredths of a conveyor unit, used to run the engine.\<close>

definition hundredths :: "int pos_ops" where
  "hundredths = \<lparr>pos_zero = 0,
                 pos_speed = (\<lambda>level. min (15 + (level - 1) * 2) 40),
                 pos_add = (\<lambda>p s. p + s),
                 pos_at_end = (\<lambda>p. 1000 \<le> p)\<rparr>"

subsection \<open>Difficulty scaling\<close>

definition getSpawnInterval :: "'p game \<Rightarrow> int" where
  "getSpawnInterval g = max (BASE_SPAWN_INTERVAL - (level g - 1) * 8) MIN_SPAWN_INTERVAL"

definition getTileSpeed :: "'p pos_ops \<Rightarrow> 'p game \<Rightarrow> 'p" where
  "getTileSpeed ops g = pos_speed ops (level g)"

definition getNumColors :: "'p game \<Rightarrow> int" where
  "getNumColors g = min (3 + level g div 3) COLORS_length"

subsection \<open>Construction and reset\<close>

definition reset :: "'p game \<Rightarrow> 'p game" where
  "reset g = g\<lparr>score := 0, level := 1, lives := INITIAL_LIVES,
               paused := False, gameOver := False,
               conveyorTiles := [], nextTileId := 0, spawnTimer := 0,
               catcherColumn := 2,
               rack := [],
               well := replicate WELL_COLS (replicate WELL_ROWS None),
               events := [],
               frameCount := 0\<rparr>"

text \<open>
  The constructor stores the generator and calls \<^verbatim>\<open>reset()\<close>, which assigns every
  other field.
\<close>

definition Game_new :: "int \<Rightarrow> 'p game" where
  "Game_new s = reset \<lparr>seed = s, score = 0, level = 0, lives = 0,
                       paused = False, gameOver = False,
                       conveyorTiles = [], nextTileId = 0, spawnTimer = 0,
                       catcherColumn = 0, rack = [], well = [], events = [],
                       frameCount = 0\<rparr>"

subsection \<open>Lives\<close>

definition loseLife :: "string \<Rightarrow> 'p game \<Rightarrow> 'p game" where
  "loseLife reason g =
     (let g1 = g\<lparr>lives := lives g - 1\<rparr>;
          g2 = g1\<lparr>events := events g1 @ [LIFE_LOST (lives g1) reason]\<rparr>
      in if lives g2 \<le> 0
         then g2\<lparr>gameOver := True,
                 events := events g2 @ [GAME_OVER (score g2) (level g2)]\<rparr>
         else g2)"

subsection \<open>Spawning\<close>

definition spawnTile :: "'p pos_ops \<Rightarrow> 'p game \<Rightarrow> 'p game" where
  "spawnTile ops g =
     (let numColors = getNumColors g;
          (colorIndex, g1) = nextInt 0 (numColors - 1) g;
          (column, g2) = nextInt 0 (int WELL_COLS - 1) g1;
          tile = \<lparr>tile_id = nextTileId g2, position = pos_zero ops,
                  colorIndex = colorIndex, column = column\<rparr>
      in g2\<lparr>nextTileId := nextTileId g2 + 1,
            conveyorTiles := conveyorTiles g2 @ [tile],
            events := events g2 @ [TILE_SPAWN (tile_id tile)]\<rparr>)"

definition updateSpawning :: "'p pos_ops \<Rightarrow> 'p game \<Rightarrow> 'p game" where
  "updateSpawning ops g =
     (let g1 = g\<lparr>spawnTimer := spawnTimer g + 1\<rparr> in
      if spawnTimer g1 \<ge> getSpawnInterval g1
      then spawnTile ops (g1\<lparr>spawnTimer := 0\<rparr>)
      else g1)"

subsection \<open>The rack: \<^verbatim>\<open>checkRackMatches\<close>\<close>

function rackLength :: "int list \<Rightarrow> nat \<Rightarrow> int \<Rightarrow> nat \<Rightarrow> nat" where
  "rackLength r start color len =
     (if start + len < length r \<and> r ! (start + len) = color
      then rackLength r start color (Suc len) else len)"
  by pat_completeness auto
termination
  by (relation "measure (\<lambda>(r, start, color, len). length r - (start + len))") auto

declare rackLength.simps [simp del]

text \<open>
  The \<^verbatim>\<open>for (start = 0; start <= this.rack.length - 3; start++)\<close> loop up to its first
  run of three or more: the start and the length of that run, if there is one.
\<close>

function rackScan :: "int list \<Rightarrow> nat \<Rightarrow> (nat \<times> nat) option" where
  "rackScan r start =
     (if start + 3 \<le> length r then
        (if 3 \<le> rackLength r start (r ! start) 1
         then Some (start, rackLength r start (r ! start) 1)
         else rackScan r (start + 1))
      else None)"
  by pat_completeness auto
termination
  by (relation "measure (\<lambda>(r, start). length r - start)") auto

declare rackScan.simps [simp del]

text \<open>The points of a rack run, \<^verbatim>\<open>let points = 0; if (length === 3) ...\<close>.\<close>

definition rackPoints :: "nat \<Rightarrow> int" where
  "rackPoints len = (if len = 3 then 100 else if len = 4 then 300
                     else if 5 \<le> len then 600 else 0)"

text \<open>\<^verbatim>\<open>splice(start, length)\<close> removes the run and returns it.\<close>

function checkRackMatches :: "'p game \<Rightarrow> 'p game" where
  "checkRackMatches g =
     (if length (rack g) < 3 then g
      else (case rackScan (rack g) 0 of
              None \<Rightarrow> g
            | Some (start, len) \<Rightarrow>
                checkRackMatches (checkLevelUp
                  (g\<lparr>rack := take start (rack g) @ drop (start + len) (rack g),
                     score := score g + rackPoints len,
                     events := events g @
                       [MATCH [RackMatch (take len (drop start (rack g))) (rack g ! start)]
                          (rackPoints len)]\<rparr>))))"
  by pat_completeness auto
termination
proof (relation "measure (\<lambda>g. length (rack g))")
  show "wf (measure (\<lambda>g::'p game. length (rack g)))"
    by simp
next
  fix g :: "'p game" and x :: "nat \<times> nat" and start len :: nat
  assume long: "\<not> length (rack g) < 3"
    and found: "rackScan (rack g) 0 = Some x" "(start, len) = x"
  have scan: "rackScan r s = Some (a, n) \<Longrightarrow> a < length r \<and> 3 \<le> n" for r s a n
    by (induction r s rule: rackScan.induct)
       (subst (asm) rackScan.simps, auto split: if_splits)
  from found have "start < length (rack g) \<and> 3 \<le> len"
    using scan [of "rack g" 0 start len] by simp
  then show "(checkLevelUp
          (g\<lparr>rack := take start (rack g) @ drop (start + len) (rack g),
             score := score g + rackPoints len,
             events := events g @
               [MATCH [RackMatch (take len (drop start (rack g))) (rack g ! start)]
                  (rackPoints len)]\<rparr>), g)
        \<in> measure (\<lambda>g. length (rack g))"
    by (auto simp: checkLevelUp_def Let_def)
qed

declare checkRackMatches.simps [simp del]

subsection \<open>End of the conveyor\<close>

text \<open>
  The \<^verbatim>\<open>for (row = WELL_ROWS - 1; row >= 0; row--)\<close> loop of \<^verbatim>\<open>dropTileIntoWell\<close>;
  the first argument is \<open>row + 1\<close>.
\<close>

primrec dropLoop :: "nat \<Rightarrow> nat \<Rightarrow> int \<Rightarrow> 'p game \<Rightarrow> 'p game" where
  "dropLoop 0 col color g = loseLife ''Well column full'' g"
| "dropLoop (Suc row) col color g =
     (if well g ! col ! row = None
      then g\<lparr>well := (well g)[col := (well g ! col)[row := Some color]]\<rparr>
      else dropLoop row col color g)"

text \<open>
  For a column outside the well \<^verbatim>\<open>this.well[col]\<close> is \<^verbatim>\<open>undefined\<close>, and reading
  \<^verbatim>\<open>[row]\<close> from it raises a TypeError: the result \<^term>\<open>None\<close>.
\<close>

definition dropTileIntoWell :: "int \<Rightarrow> int \<Rightarrow> 'p game \<Rightarrow> 'p game option" where
  "dropTileIntoWell col color g =
     (if 0 \<le> col \<and> col < int (length (well g))
      then Some (dropLoop WELL_ROWS (nat col) color g)
      else None)"

definition handleTileReachedEnd :: "'p tile \<Rightarrow> 'p game \<Rightarrow> 'p game option" where
  "handleTileReachedEnd tile g =
     (if column tile = catcherColumn g then
        (if length (rack g) < RACK_CAPACITY
         then Some (checkRackMatches
                (g\<lparr>rack := rack g @ [colorIndex tile],
                   events := events g @ [CATCH (colorIndex tile)]\<rparr>))
         else Some (loseLife ''Rack overflow'' g))
      else
        (case dropTileIntoWell (column tile) (colorIndex tile) g of
           None \<Rightarrow> None
         | Some g1 \<Rightarrow>
             Some (g1\<lparr>events := events g1 @ [TILE_FALL (column tile) (colorIndex tile)]\<rparr>)))"

text \<open>
  The loop of \<^verbatim>\<open>updateConveyor\<close> runs \<open>i\<close> from the last index down to 0; the third
  argument is \<open>i + 1\<close>. A tile that reaches the end is spliced out before it is handled.
\<close>

primrec conveyorLoop :: "'p pos_ops \<Rightarrow> 'p \<Rightarrow> nat \<Rightarrow> 'p game \<Rightarrow> 'p game option" where
  "conveyorLoop ops speed 0 g = Some g"
| "conveyorLoop ops speed (Suc i) g =
     (let tile = (conveyorTiles g ! i)
                   \<lparr>position := pos_add ops (position (conveyorTiles g ! i)) speed\<rparr>
      in if pos_at_end ops (position tile)
         then (case handleTileReachedEnd tile
                      (g\<lparr>conveyorTiles := take i (conveyorTiles g)
                                           @ drop (Suc i) (conveyorTiles g)\<rparr>) of
                 None \<Rightarrow> None
               | Some g1 \<Rightarrow> conveyorLoop ops speed i g1)
         else conveyorLoop ops speed i
                (g\<lparr>conveyorTiles := (conveyorTiles g)[i := tile]\<rparr>))"

definition updateConveyor :: "'p pos_ops \<Rightarrow> 'p game \<Rightarrow> 'p game option" where
  "updateConveyor ops g =
     conveyorLoop ops (getTileSpeed ops g) (length (conveyorTiles g)) g"

subsection \<open>The public API\<close>

definition update :: "'p pos_ops \<Rightarrow> 'p game \<Rightarrow> 'p game option" where
  "update ops g =
     (if paused g \<or> gameOver g then Some g
      else (case updateConveyor ops
                   (updateSpawning ops (g\<lparr>frameCount := frameCount g + 1, events := []\<rparr>)) of
              None \<Rightarrow> None
            | Some g1 \<Rightarrow> Some (checkMatches g1)))"

definition moveLeft :: "'p game \<Rightarrow> bool \<times> 'p game" where
  "moveLeft g =
     (if \<not> paused g \<and> \<not> gameOver g \<and> catcherColumn g > 0
      then (True, g\<lparr>catcherColumn := catcherColumn g - 1\<rparr>)
      else (False, g))"

definition moveRight :: "'p game \<Rightarrow> bool \<times> 'p game" where
  "moveRight g =
     (if \<not> paused g \<and> \<not> gameOver g \<and> catcherColumn g < int WELL_COLS - 1
      then (True, g\<lparr>catcherColumn := catcherColumn g + 1\<rparr>)
      else (False, g))"

definition dropFromRack :: "'p game \<Rightarrow> (bool \<times> 'p game) option" where
  "dropFromRack g =
     (if \<not> paused g \<and> \<not> gameOver g \<and> length (rack g) > 0 then
        (case dropTileIntoWell (catcherColumn g) (hd (rack g)) (g\<lparr>rack := tl (rack g)\<rparr>) of
           None \<Rightarrow> None
         | Some g1 \<Rightarrow>
             Some (True, g1\<lparr>events := events g1 @ [DROP (catcherColumn g1) (hd (rack g))]\<rparr>))
      else Some (False, g))"

definition togglePause :: "'p game \<Rightarrow> 'p game" where
  "togglePause g = (if \<not> gameOver g then g\<lparr>paused := \<not> paused g\<rparr> else g)"

text \<open>\<^verbatim>\<open>getEvents()\<close> returns a copy of the buffer and assigns nothing.\<close>

definition getEvents :: "'p game \<Rightarrow> event list \<times> 'p game" where
  "getEvents g = (events g, g)"

subsection \<open>Runs of public calls\<close>

datatype call = Update | MoveLeft | MoveRight | DropFromRack | TogglePause | Reset

fun step :: "'p pos_ops \<Rightarrow> call \<Rightarrow> 'p game \<Rightarrow> 'p game option" where
  "step ops Update g = update ops g"
| "step ops MoveLeft g = Some (snd (moveLeft g))"
| "step ops MoveRight g = Some (snd (moveRight g))"
| "step ops DropFromRack g = map_option snd (dropFromRack g)"
| "step ops TogglePause g = Some (togglePause g)"
| "step ops Reset g = Some (reset g)"

text \<open>
  The state after a sequence of public calls, each returning before the next is made;
  \<^term>\<open>None\<close> if one of them raises.
\<close>

fun run :: "'p pos_ops \<Rightarrow> call list \<Rightarrow> 'p game \<Rightarrow> 'p game option" where
  "run ops [] g = Some g"
| "run ops (c # cs) g = (case step ops c g of None \<Rightarrow> None | Some g1 \<Rightarrow> run ops cs g1)"

subsection \<open>Invariants of the engine state\<close>

text \<open>The stored level is the one computed from the score.\<close>

definition levelOk :: "'p game \<Rightarrow> bool" where
  "levelOk g \<longleftrightarrow> level g = score g div LEVEL_UP_THRESHOLD + 1"

definition catcherOk :: "'p game \<Rightarrow> bool" where
  "catcherOk g \<longleftrightarrow> 0 \<le> catcherColumn g \<and> catcherColumn g \<le> 4"

text \<open>A column is settled when no empty cell lies below a filled one.\<close>

definition settled :: "cell list \<Rightarrow> bool" where
  "settled c \<longleftrightarrow>
     (\<forall>i<length c. c ! i \<noteq> None \<longrightarrow> (\<forall>j<length c. i < j \<longrightarrow> c ! j \<noteq> None))"

definition wellOk :: "well \<Rightarrow> bool" where
  "wellOk w \<longleftrightarrow> length w = WELL_COLS \<and> (\<forall>c\<in>set w. length c = WELL_ROWS \<and> settled c)"

text \<open>No three neighbouring rack entries are equal.\<close>

definition noRun3 :: "int list \<Rightarrow> bool" where
  "noRun3 r \<longleftrightarrow> (\<forall>i. i + 2 < length r \<longrightarrow> \<not> (r ! i = r ! (i + 1) \<and> r ! (i + 1) = r ! (i + 2)))"

definition rackOk :: "int list \<Rightarrow> bool" where
  "rackOk r \<longleftrightarrow> length r \<le> RACK_CAPACITY \<and> noRun3 r"

definition engineInv :: "'p game \<Rightarrow> bool" where
  "engineInv g \<longleftrightarrow> levelOk g \<and> catcherOk g \<and> wellOk (well g) \<and> rackOk (rack g)"

text \<open>
  What no call may lose if it is to return: every tile on the conveyor is bound for a
  column of the well, and the generator's seed is not negative.
\<close>

definition tilesOk :: "'p game \<Rightarrow> bool" where
  "tilesOk g \<longleftrightarrow>
     0 \<le> seed g \<and> (\<forall>t\<in>set (conveyorTiles g). 0 \<le> column t \<and> column t < int WELL_COLS)"

text \<open>
  The state in which \<^verbatim>\<open>checkRackMatches\<close> calls itself: the run of \<open>len\<close> entries at
  \<open>start\<close> spliced out and scored, the level checked.
\<close>

definition spliceRun :: "'p game \<Rightarrow> nat \<Rightarrow> nat \<Rightarrow> 'p game" where
  "spliceRun g start len =
     checkLevelUp
       (g\<lparr>rack := take start (rack g) @ drop (start + len) (rack g),
          score := score g + rackPoints len,
          events := events g @
            [MATCH [RackMatch (take len (drop start (rack g))) (rack g ! start)]
               (rackPoints len)]\<rparr>)"

subsection \<open>The work of one tick\<close>

text \<open>
  The three phases that \<^verbatim>\<open>update()\<close> runs after its guard and after
  \<^verbatim>\<open>this.events = []\<close>: \<^verbatim>\<open>this.updateSpawning(); this.updateConveyor();
  this.checkMatches();\<close>, here on whatever the event buffer holds.
\<close>

definition tick :: "'p pos_ops \<Rightarrow> 'p game \<Rightarrow> 'p game option" where
  "tick ops g =
     (case updateConveyor ops (updateSpawning ops g) of
        None \<Rightarrow> None
      | Some g1 \<Rightarrow> Some (checkMatches g1))"

text \<open>The state \<open>g\<close> with the events \<open>es\<close> put in front of its buffer.\<close>

definition prepend :: "event list \<Rightarrow> 'p game \<Rightarrow> 'p game" where
  "prepend es g = g\<lparr>events := es @ events g\<rparr>"

subsection \<open>Concrete states\<close>

text \<open>
  A settled well whose only run is the down-right diagonal of four cells of colour 0
  from column 0, row 1 to column 3, row 4.
\<close>

definition diag4_well :: well where
  "diag4_well = [[None, Some 0, Some 1, Some 2, Some 1],
                 [None, None, Some 0, Some 2, Some 1],
                 [None, None, None, Some 0, Some 2],
                 [None, None, None, None, Some 0],
                 [None, None, None, None, None]]"

text \<open>A settled well whose only run is the row of four cells of colour 0 at the bottom.\<close>

definition row4_well :: well where
  "row4_well = [[None, None, None, None, Some 0],
                [None, None, None, None, Some 0],
                [None, None, None, None, Some 0],
                [None, None, None, None, Some 0],
                [None, None, None, None, None]]"

text \<open>A fresh engine with seed 1, running on exact position arithmetic.\<close>

definition fresh1 :: "int game" where
  "fresh1 = Game_new 1"

text \<open>
  A game played from \<^term>\<open>fresh1\<close>. The first four tiles are caught (colours 0, 1, 2,
  2, at columns 2, 4, 0, 3); then two rack entries are dropped into column 3 and the
  fifth tile (colour 2, column 2) is caught, which completes a rack run of three.
\<close>

definition calls1 :: "call list" where
  "calls1 = replicate 186 Update @ [MoveRight, MoveRight] @ replicate 120 Update
     @ [MoveLeft, MoveLeft, MoveLeft, MoveLeft] @ replicate 120 Update
     @ [MoveRight, MoveRight, MoveRight] @ replicate 120 Update"

definition state1 :: "int game" where
  "state1 = \<lparr>seed = 164697, score = 0, level = 1, lives = 3,
     paused = False, gameOver = False, conveyorTiles = [], nextTileId = 4,
     spawnTimer = 66, catcherColumn = 3, rack = [0, 1, 2, 2],
     well =
       [[None, None, None, None, None], [None, None, None, None, None],
        [None, None, None, None, None], [None, None, None, None, None],
        [None, None, None, None, None]],
     events = [CATCH 2], frameCount = 546\<rparr>"

definition calls2 :: "call list" where
  "calls2 = [DropFromRack, DropFromRack, MoveLeft] @ replicate 120 Update"

definition state2 :: "int game" where
  "state2 = \<lparr>seed = 121031, score = 100, level = 1, lives = 3,
     paused = False, gameOver = False, conveyorTiles = [], nextTileId = 5,
     spawnTimer = 66, catcherColumn = 2, rack = [],
     well =
       [[None, None, None, None, None], [None, None, None, None, None],
        [None, None, None, None, None], [None, None, None, Some 1, Some 0],
        [None, None, None, None, None]],
     events = [CATCH 2, MATCH [RackMatch [2, 2, 2] 2] 100],
     frameCount = 666\<rparr>"

text \<open>The state one tick after \<^term>\<open>state2\<close>.\<close>

definition state3 :: "int game" where
  "state3 = state2\<lparr>spawnTimer := 67, events := [], frameCount := 667\<rparr>"

text \<open>
  The first tile is spawned in tick 120; the game is then paused.
\<close>

definition paused_calls :: "call list" where
  "paused_calls = replicate 120 Update @ [TogglePause]"

definition paused_state :: "int game" where
  "paused_state = \<lparr>seed = 127215, score = 0, level = 1, lives = 3,
     paused = True, gameOver = False,
     conveyorTiles = [\<lparr>tile_id = 0, position = 15, colorIndex = 0, column = 2\<rparr>],
     nextTileId = 1, spawnTimer = 0, catcherColumn = 2, rack = [],
     well =
       [[None, None, None, None, None], [None, None, None, None, None],
        [None, None, None, None, None], [None, None, None, None, None],
        [None, None, None, None, None]],
     events = [TILE_SPAWN 0], frameCount = 120\<rparr>"

text \<open>States set up by hand: column 0 of the well full, and the rack full.\<close>

definition full_column_game :: "int game" where
  "full_column_game =
     fresh1\<lparr>rack := [2],
            well := [[Some 0, Some 1, Some 0, Some 1, Some 0], [None, None, None, None, None],
                     [None, None, None, None, None], [None, None, None, None, None],
                     [None, None, None, None, None]]\<rparr>"

definition full_rack_game :: "int game" where
  "full_rack_game = fresh1\<lparr>rack := [0, 1, 0, 1, 0]\<rparr>"

definition arriving_tile :: "int \<Rightarrow> int tile" where
  "arriving_tile col = \<lparr>tile_id = 7, position = 1005, colorIndex = 1, column = col\<rparr>"

text \<open>
  The same game with the two drops made right before tick 666: the state in which that
  tick starts, its buffer holding the two drop events.
\<close>

definition calls3 :: "call list" where
  "calls3 = replicate 119 Update @ [DropFromRack, DropFromRack, MoveLeft]"

definition before666 :: "int game" where
  "before666 = \<lparr>seed = 121031, score = 0, level = 1, lives = 3,
     paused = False, gameOver = False,
     conveyorTiles = [\<lparr>tile_id = 4, position = 990, colorIndex = 2, column = 2\<rparr>],
     nextTileId = 5, spawnTimer = 65, catcherColumn = 2, rack = [2, 2],
     well =
       [[None, None, None, None, None], [None, None, None, None, None],
        [None, None, None, None, None], [None, None, None, Some 1, Some 0],
        [None, None, None, None, None]],
     events = [DROP 3 0, DROP 3 1], frameCount = 665\<rparr>"

section \<open>Properties\<close>

subsection \<open>Fields that the helpers leave alone\<close>

lemma checkLevelUp_fields [simp]:
  "score (checkLevelUp g) = score g"
  "rack (checkLevelUp g) = rack g"
  "well (checkLevelUp g) = well g"
  "lives (checkLevelUp g) = lives g"
  "catcherColumn (checkLevelUp g) = catcherColumn g"
  "conveyorTiles (checkLevelUp g) = conveyorTiles g"
  "seed (checkLevelUp g) = seed g"
  by (simp_all add: checkLevelUp_def Let_def)

lemma loseLife_fields [simp]:
  "score (loseLife reason g) = score g"
  "level (loseLife reason g) = level g"
  "rack (loseLife reason g) = rack g"
  "well (loseLife reason g) = well g"
  "catcherColumn (loseLife reason g) = catcherColumn g"
  "conveyorTiles (loseLife reason g) = conveyorTiles g"
  "seed (loseLife reason g) = seed g"
  "lives (loseLife reason g) = lives g - 1"
  by (simp_all add: loseLife_def Let_def)

lemma loseLife_events:
  "events (loseLife reason g) =
     events g @ [LIFE_LOST (lives g - 1) reason]
       @ (if lives g - 1 \<le> 0 then [GAME_OVER (score g) (level g)] else [])"
  by (simp add: loseLife_def Let_def)

lemma applyGravity_fields [simp]:
  "score (applyGravity g) = score g"
  "level (applyGravity g) = level g"
  "rack (applyGravity g) = rack g"
  "catcherColumn (applyGravity g) = catcherColumn g"
  "conveyorTiles (applyGravity g) = conveyorTiles g"
  "seed (applyGravity g) = seed g"
  "events (applyGravity g) = events g"
  by (simp_all add: applyGravity_def)

lemma dropLoop_fields [simp]:
  "score (dropLoop n col color g) = score g"
  "level (dropLoop n col color g) = level g"
  "rack (dropLoop n col color g) = rack g"
  "catcherColumn (dropLoop n col color g) = catcherColumn g"
  "conveyorTiles (dropLoop n col color g) = conveyorTiles g"
  "seed (dropLoop n col color g) = seed g"
  by (induction n; simp)+

lemma spliceRun_fields [simp]:
  "score (spliceRun g start len) = score g + rackPoints len"
  "rack (spliceRun g start len) = take start (rack g) @ drop (start + len) (rack g)"
  "well (spliceRun g start len) = well g"
  "lives (spliceRun g start len) = lives g"
  "catcherColumn (spliceRun g start len) = catcherColumn g"
  "conveyorTiles (spliceRun g start len) = conveyorTiles g"
  "seed (spliceRun g start len) = seed g"
  by (simp_all add: spliceRun_def)

subsection \<open>The level follows the score\<close>

lemma levelOk_checkLevelUp:
  "level g \<le> score g div LEVEL_UP_THRESHOLD + 1 \<Longrightarrow> levelOk (checkLevelUp g)"
  by (simp add: levelOk_def checkLevelUp_def Let_def)

lemma rackPoints_nonneg: "0 \<le> rackPoints n"
  by (simp add: rackPoints_def)

lemma matchPoints_nonneg: "0 \<le> matchPoints n"
  by (simp add: matchPoints_def)

lemma fold_points_ge:
  "a \<le> fold (\<lambda>m points. points + matchPoints (tiles_length m)) ms a"
proof (induction ms arbitrary: a)
  case Nil
  show ?case by simp
next
  case (Cons m ms)
  have "a \<le> a + matchPoints (tiles_length m)"
    using matchPoints_nonneg [of "tiles_length m"] by simp
  also have "\<dots> \<le> fold (\<lambda>m points. points + matchPoints (tiles_length m)) ms
                      (a + matchPoints (tiles_length m))"
    by (rule Cons.IH)
  finally show ?case by simp
qed

lemma totalPoints_nonneg: "0 \<le> totalPoints ms"
  unfolding totalPoints_def by (rule fold_points_ge)

lemma levelOk_spliceRun: "levelOk g \<Longrightarrow> levelOk (spliceRun g start len)"
proof -
  assume ok: "levelOk g"
  have "score g div 1000 \<le> (score g + rackPoints len) div 1000"
    using rackPoints_nonneg [of len] by (intro zdiv_mono1) simp_all
  with ok show ?thesis
    unfolding spliceRun_def by (intro levelOk_checkLevelUp) (simp add: levelOk_def)
qed

subsection \<open>The rack scan\<close>

lemma checkRackMatches_short: "length (rack g) < 3 \<Longrightarrow> checkRackMatches g = g"
  by (subst checkRackMatches.simps) simp

lemma checkRackMatches_none: "rackScan (rack g) 0 = None \<Longrightarrow> checkRackMatches g = g"
  by (subst checkRackMatches.simps) simp

lemma checkRackMatches_found:
  "\<not> length (rack g) < 3 \<Longrightarrow> rackScan (rack g) 0 = Some (start, len) \<Longrightarrow>
   checkRackMatches g = checkRackMatches (spliceRun g start len)"
  by (subst checkRackMatches.simps) (simp add: spliceRun_def)

text \<open>
  A rule for the recursion of \<^verbatim>\<open>checkRackMatches\<close>: what holds on entry and survives
  every splice holds where the recursion stops.
\<close>

lemma checkRackMatches_rule:
  assumes entry: "Q g"
    and splice: "\<And>g start len. Q g \<Longrightarrow> \<not> length (rack g) < 3 \<Longrightarrow>
                   rackScan (rack g) 0 = Some (start, len) \<Longrightarrow> Q (spliceRun g start len)"
    and stop: "\<And>g. Q g \<Longrightarrow> length (rack g) < 3 \<or> rackScan (rack g) 0 = None \<Longrightarrow> P g"
  shows "P (checkRackMatches g)"
  using entry
proof (induction g rule: checkRackMatches.induct)
  case (1 g)
  show ?case
  proof (cases "length (rack g) < 3")
    case True
    with "1.prems" stop show ?thesis
      by (simp add: checkRackMatches_short)
  next
    case long: False
    show ?thesis
    proof (cases "rackScan (rack g) 0")
      case None
      with "1.prems" stop show ?thesis
        by (simp add: checkRackMatches_none)
    next
      case (Some x)
      obtain start len where x: "x = (start, len)"
        by (cases x)
      have "Q (spliceRun g start len)"
        using "1.prems" long Some x by (intro splice) simp_all
      then have "P (checkRackMatches (spliceRun g start len))"
        using "1.IH" [OF long Some x [symmetric]] by (simp add: spliceRun_def)
      then show ?thesis
        using long Some x by (simp add: checkRackMatches_found)
    qed
  qed
qed

lemma rackLength_ge: "len \<le> rackLength r start color len"
proof (induction r start color len rule: rackLength.induct)
  case (1 r start color len)
  show ?case
  proof (cases "start + len < length r \<and> r ! (start + len) = color")
    case True
    then have "Suc len \<le> rackLength r start color (Suc len)"
      by (rule "1.IH")
    with True show ?thesis
      by (subst rackLength.simps) simp
  next
    case False
    then show ?thesis
      by (subst rackLength.simps) auto
  qed
qed

lemma rackLength_step:
  "start + len < length r \<Longrightarrow> r ! (start + len) = color \<Longrightarrow>
   rackLength r start color len = rackLength r start color (Suc len)"
  by (subst rackLength.simps) simp

lemma rackLength_run3:
  assumes "i + 2 < length r" and "r ! i = r ! (i + 1)" and "r ! (i + 1) = r ! (i + 2)"
  shows "3 \<le> rackLength r i (r ! i) 1"
proof -
  have "rackLength r i (r ! i) 1 = rackLength r i (r ! i) (Suc 1)"
    using assms by (intro rackLength_step) simp_all
  also have "\<dots> = rackLength r i (r ! i) (Suc (Suc 1))"
    using assms by (intro rackLength_step) simp_all
  finally show ?thesis
    using rackLength_ge [of "Suc (Suc 1)" r i "r ! i"] by simp
qed

lemma rackScan_None:
  "rackScan r start = None \<Longrightarrow> start \<le> i \<Longrightarrow> i + 2 < length r \<Longrightarrow>
   \<not> (r ! i = r ! (i + 1) \<and> r ! (i + 1) = r ! (i + 2))"
proof (induction r start rule: rackScan.induct)
  case (1 r start)
  from "1.prems" have inside: "start + 3 \<le> length r"
    by simp
  from "1.prems"(1) inside have short: "\<not> 3 \<le> rackLength r start (r ! start) 1"
    by (subst (asm) rackScan.simps) (simp split: if_splits)
  from "1.prems"(1) inside short have rest: "rackScan r (start + 1) = None"
    by (subst (asm) rackScan.simps) simp
  show ?case
  proof (cases "i = start")
    case True
    with short "1.prems" show ?thesis
      using rackLength_run3 [of start r] by auto
  next
    case False
    with "1.prems" have "start + 1 \<le> i"
      by simp
    then show ?thesis
      using "1.IH" [OF inside short rest] "1.prems" by simp
  qed
qed

lemma rackScan_Some:
  "rackScan r s = Some (start, len) \<Longrightarrow> start < length r \<and> 3 \<le> len"
  by (induction r s rule: rackScan.induct)
     (subst (asm) rackScan.simps, auto split: if_splits)

lemma noRun3_checkRackMatches: "noRun3 (rack (checkRackMatches g))"
proof (rule checkRackMatches_rule [where Q = "\<lambda>g. True"])
  fix g :: "'a game"
  assume "length (rack g) < 3 \<or> rackScan (rack g) 0 = None"
  then show "noRun3 (rack g)"
    unfolding noRun3_def using rackScan_None [of "rack g" 0] by auto
qed simp_all

lemma checkRackMatches_keeps:
  assumes "levelOk g" and "length (rack g) \<le> n"
  shows "levelOk (checkRackMatches g) \<and> length (rack (checkRackMatches g)) \<le> n
       \<and> well (checkRackMatches g) = well g
       \<and> catcherColumn (checkRackMatches g) = catcherColumn g
       \<and> conveyorTiles (checkRackMatches g) = conveyorTiles g
       \<and> seed (checkRackMatches g) = seed g
       \<and> lives (checkRackMatches g) = lives g"
proof (rule checkRackMatches_rule
    [where Q = "\<lambda>h. levelOk h \<and> length (rack h) \<le> n \<and> well h = well g
                  \<and> catcherColumn h = catcherColumn g \<and> conveyorTiles h = conveyorTiles g
                  \<and> seed h = seed g \<and> lives h = lives g"])
  show "levelOk g \<and> length (rack g) \<le> n \<and> well g = well g
        \<and> catcherColumn g = catcherColumn g \<and> conveyorTiles g = conveyorTiles g
        \<and> seed g = seed g \<and> lives g = lives g"
    using assms by simp
qed (auto simp: levelOk_spliceRun)

subsection \<open>The well stays settled\<close>

lemma settled_update:
  assumes "settled c" and "row < length c"
    and "\<forall>j. row < j \<and> j < length c \<longrightarrow> c ! j \<noteq> None"
  shows "settled (c[row := Some x])"
  unfolding settled_def
proof (intro allI impI)
  fix i j
  assume i: "i < length (c[row := Some x])" and filled: "c[row := Some x] ! i \<noteq> None"
    and j: "j < length (c[row := Some x])" and ij: "i < j"
  show "c[row := Some x] ! j \<noteq> None"
  proof (cases "j = row")
    case True
    with assms(2) show ?thesis by simp
  next
    case jr: False
    have "c ! j \<noteq> None"
    proof (cases "i = row")
      case True
      with ij j have "row < j \<and> j < length c" by simp
      with assms(3) show ?thesis by blast
    next
      case False
      with filled have "c ! i \<noteq> None" by simp
      moreover from i j have "i < length c" "j < length c" by simp_all
      ultimately show ?thesis
        using assms(1) ij unfolding settled_def by blast
    qed
    with jr show ?thesis by simp
  qed
qed

lemma wellOk_update:
  assumes "wellOk w" and "col < length w" and "length c = WELL_ROWS" and "settled c"
  shows "wellOk (w[col := c])"
  unfolding wellOk_def
proof (intro conjI ballI)
  show "length (w[col := c]) = WELL_COLS"
    using assms(1) by (simp add: wellOk_def)
next
  fix d
  assume "d \<in> set (w[col := c])"
  then have "d = c \<or> d \<in> set w"
    using set_update_subset_insert [of w col c] by auto
  then show "length d = WELL_ROWS"
    using assms(1,3) by (auto simp: wellOk_def)
  from \<open>d = c \<or> d \<in> set w\<close> show "settled d"
    using assms(1,4) by (auto simp: wellOk_def)
qed

lemma wellOk_column:
  "wellOk w \<Longrightarrow> col < WELL_COLS \<Longrightarrow> length (w ! col) = WELL_ROWS \<and> settled (w ! col)"
  unfolding wellOk_def using nth_mem [of col w] by auto

lemma wellOk_dropLoop:
  assumes "wellOk (well g)" and "col < WELL_COLS" and "n \<le> WELL_ROWS"
    and "\<forall>j. n \<le> j \<and> j < WELL_ROWS \<longrightarrow> well g ! col ! j \<noteq> None"
  shows "wellOk (well (dropLoop n col color g))"
  using assms(3,4)
proof (induction n)
  case 0
  from assms(1) show ?case by simp
next
  case (Suc row)
  note col = wellOk_column [OF assms(1,2)]
  show ?case
  proof (cases "well g ! col ! row = None")
    case True
    have "settled ((well g ! col)[row := Some color])"
      using col Suc.prems by (intro settled_update) auto
    then have "wellOk ((well g)[col := (well g ! col)[row := Some color]])"
      using assms(1,2) col by (intro wellOk_update) (simp_all add: wellOk_def)
    with True show ?thesis by simp
  next
    case False
    have "wellOk (well (dropLoop row col color g))"
    proof (rule Suc.IH)
      show "row \<le> WELL_ROWS" using Suc.prems by simp
      show "\<forall>j. row \<le> j \<and> j < WELL_ROWS \<longrightarrow> well g ! col ! j \<noteq> None"
      proof (intro allI impI)
        fix j
        assume j: "row \<le> j \<and> j < WELL_ROWS"
        show "well g ! col ! j \<noteq> None"
        proof (cases "j = row")
          case True
          with False show ?thesis by simp
        next
          case False
          with j have "Suc row \<le> j \<and> j < WELL_ROWS" by simp
          with Suc.prems(2) show ?thesis by blast
        qed
      qed
    qed
    with False show ?thesis by auto
  qed
qed

lemma dropTileIntoWell_Some:
  "(\<exists>g'. dropTileIntoWell col color g = Some g') \<longleftrightarrow> 0 \<le> col \<and> col < int (length (well g))"
  by (simp add: dropTileIntoWell_def)

lemma dropTileIntoWell_keeps:
  assumes "dropTileIntoWell col color g = Some g'"
  shows "score g' = score g \<and> level g' = level g \<and> rack g' = rack g
       \<and> catcherColumn g' = catcherColumn g \<and> conveyorTiles g' = conveyorTiles g
       \<and> seed g' = seed g"
  using assms by (auto simp: dropTileIntoWell_def split: if_splits)

lemma wellOk_dropTileIntoWell:
  assumes "wellOk (well g)" and "dropTileIntoWell col color g = Some g'"
  shows "wellOk (well g')"
proof -
  from assms have range: "0 \<le> col" "col < int WELL_COLS"
    and g': "g' = dropLoop WELL_ROWS (nat col) color g"
    by (auto simp: dropTileIntoWell_def wellOk_def split: if_splits)
  from range have col: "nat col < WELL_COLS" by simp
  have none: "\<forall>j. WELL_ROWS \<le> j \<and> j < WELL_ROWS \<longrightarrow> well g ! nat col ! j \<noteq> None"
    by auto
  show ?thesis
    unfolding g' by (rule wellOk_dropLoop [OF assms(1) col _ none]) simp
qed

lemma compacted_nth: "k < length (compacted c) \<Longrightarrow> compacted c ! k \<noteq> None"
proof -
  assume "k < length (compacted c)"
  then have "compacted c ! k \<in> set (compacted c)"
    by (rule nth_mem)
  then show ?thesis
    unfolding compacted_def by simp
qed

lemma length_gravityColumn: "length (gravityColumn c) = WELL_ROWS"
  by (simp add: gravityColumn_def)

lemma gravityColumn_nth:
  "row < WELL_ROWS \<Longrightarrow>
   gravityColumn c ! row =
     (if WELL_ROWS - 1 - row < length (compacted c)
      then compacted c ! (WELL_ROWS - 1 - row) else None)"
  unfolding gravityColumn_def by (subst nth_map) simp_all

lemma settled_gravityColumn: "settled (gravityColumn c)"
  unfolding settled_def
proof (intro allI impI)
  fix i j
  assume i: "i < length (gravityColumn c)" and filled: "gravityColumn c ! i \<noteq> None"
    and j: "j < length (gravityColumn c)" and ij: "i < j"
  from i j have i5: "i < WELL_ROWS" and j5: "j < WELL_ROWS"
    by (simp_all add: length_gravityColumn)
  from filled i5 have "WELL_ROWS - 1 - i < length (compacted c)"
    by (simp add: gravityColumn_nth split: if_splits)
  with ij have "WELL_ROWS - 1 - j < length (compacted c)"
    by simp
  then show "gravityColumn c ! j \<noteq> None"
    using j5 by (simp add: gravityColumn_nth compacted_nth)
qed

lemma wellOk_applyGravity: "wellOk (well (applyGravity g))"
  unfolding applyGravity_def wellOk_def
  by (auto simp: length_gravityColumn settled_gravityColumn)

lemma wellOk_checkMatches: "wellOk (well g) \<Longrightarrow> wellOk (well (checkMatches g))"
  by (simp add: checkMatches_def Let_def wellOk_applyGravity)

lemma checkMatches_fields [simp]:
  "rack (checkMatches g) = rack g"
  "catcherColumn (checkMatches g) = catcherColumn g"
  "conveyorTiles (checkMatches g) = conveyorTiles g"
  "seed (checkMatches g) = seed g"
  by (simp_all add: checkMatches_def Let_def)

lemma levelOk_checkMatches: "levelOk g \<Longrightarrow> levelOk (checkMatches g)"
proof -
  assume ok: "levelOk g"
  have "score g div 1000 \<le> (score g + totalPoints (findMatches (well g))) div 1000"
    using totalPoints_nonneg [of "findMatches (well g)"] by (intro zdiv_mono1) simp_all
  with ok have "levelOk (checkLevelUp (applyGravity
          (g\<lparr>well := fold clearMatch (findMatches (well g)) (well g),
             score := score g + totalPoints (findMatches (well g)),
             events := events g @ [MATCH (findMatches (well g))
                                     (totalPoints (findMatches (well g)))]\<rparr>)))"
    by (intro levelOk_checkLevelUp) (simp add: levelOk_def)
  with ok show ?thesis
    by (simp add: checkMatches_def Let_def)
qed

subsection \<open>The invariant along a run of calls\<close>

lemma engineInv_frame:
  assumes "engineInv g" and "score g' = score g" and "level g' = level g"
    and "catcherColumn g' = catcherColumn g" and "rack g' = rack g" and "well g' = well g"
  shows "engineInv g'"
  using assms by (simp add: engineInv_def levelOk_def catcherOk_def)

lemma noRun3_tl: "noRun3 r \<Longrightarrow> noRun3 (tl r)"
proof (cases r)
  case Nil
  then show "noRun3 r \<Longrightarrow> noRun3 (tl r)" by simp
next
  case (Cons x xs)
  assume "noRun3 r"
  then have all: "\<forall>i. i + 2 < length (x # xs) \<longrightarrow>
      \<not> ((x # xs) ! i = (x # xs) ! (i + 1) \<and> (x # xs) ! (i + 1) = (x # xs) ! (i + 2))"
    unfolding noRun3_def Cons .
  have "noRun3 xs"
    unfolding noRun3_def
  proof (intro allI impI)
    fix i
    assume "i + 2 < length xs"
    with all [rule_format, of "Suc i"]
    show "\<not> (xs ! i = xs ! (i + 1) \<and> xs ! (i + 1) = xs ! (i + 2))"
      by simp
  qed
  with Cons show "noRun3 (tl r)"
    by simp
qed

lemma engineInv_catch:
  assumes "engineInv g" and "length (rack g) < RACK_CAPACITY"
  shows "engineInv (checkRackMatches (g\<lparr>rack := rack g @ [c], events := es\<rparr>))"
proof -
  let ?g1 = "g\<lparr>rack := rack g @ [c], events := es\<rparr>"
  have "levelOk ?g1" and "length (rack ?g1) \<le> RACK_CAPACITY"
    using assms by (simp_all add: engineInv_def levelOk_def)
  note keeps = checkRackMatches_keeps [OF this]
  from keeps have "levelOk (checkRackMatches ?g1)"
    by (rule conjunct1)
  moreover from keeps have "catcherColumn (checkRackMatches ?g1) = catcherColumn g"
    by simp
  with assms(1) have "catcherOk (checkRackMatches ?g1)"
    by (simp add: engineInv_def catcherOk_def)
  moreover from keeps have "well (checkRackMatches ?g1) = well g"
    by simp
  with assms(1) have "wellOk (well (checkRackMatches ?g1))"
    by (simp add: engineInv_def)
  moreover from keeps have "length (rack (checkRackMatches ?g1)) \<le> RACK_CAPACITY"
    by (elim conjE)
  then have "rackOk (rack (checkRackMatches ?g1))"
    unfolding rackOk_def using noRun3_checkRackMatches [of ?g1] by (rule conjI)
  ultimately show ?thesis
    unfolding engineInv_def by (intro conjI)
qed

lemma engineInv_fall:
  assumes "engineInv g" and "dropTileIntoWell col color g = Some g1"
  shows "engineInv (g1\<lparr>events := es\<rparr>)"
proof -
  note keeps = dropTileIntoWell_keeps [OF assms(2)]
  from assms(1) have "wellOk (well g1)"
    using wellOk_dropTileIntoWell [OF _ assms(2)] by (simp add: engineInv_def)
  moreover from assms(1) keeps have "levelOk g1" "catcherOk g1" "rackOk (rack g1)"
    by (simp_all add: engineInv_def levelOk_def catcherOk_def)
  ultimately have "engineInv g1"
    unfolding engineInv_def by (intro conjI)
  then show ?thesis
    by (rule engineInv_frame) simp_all
qed

lemma engineInv_handleTileReachedEnd:
  assumes "engineInv g" and "handleTileReachedEnd tile g = Some g'"
  shows "engineInv g'"
proof (cases "column tile = catcherColumn g")
  case aligned: True
  show ?thesis
  proof (cases "length (rack g) < RACK_CAPACITY")
    case True
    with assms(2) aligned have
      "g' = checkRackMatches (g\<lparr>rack := rack g @ [colorIndex tile],
                                events := events g @ [CATCH (colorIndex tile)]\<rparr>)"
      by (simp add: handleTileReachedEnd_def)
    with assms(1) True show ?thesis
      by (simp add: engineInv_catch)
  next
    case False
    with assms(2) aligned have g': "g' = loseLife ''Rack overflow'' g"
      by (simp add: handleTileReachedEnd_def)
    show ?thesis
      unfolding g' using assms(1) by (rule engineInv_frame) simp_all
  qed
next
  case False
  with assms(2) obtain g1 where
    drop: "dropTileIntoWell (column tile) (colorIndex tile) g = Some g1"
    and g': "g' = g1\<lparr>events := events g1 @ [TILE_FALL (column tile) (colorIndex tile)]\<rparr>"
    by (auto simp: handleTileReachedEnd_def split: option.splits)
  show ?thesis
    unfolding g' using assms(1) drop by (rule engineInv_fall)
qed

lemma conveyorLoop_preserves:
  assumes handle: "\<And>t g g'. P g \<Longrightarrow> handleTileReachedEnd t g = Some g' \<Longrightarrow> P g'"
    and frame: "\<And>g ts. P g \<Longrightarrow> P (g\<lparr>conveyorTiles := ts\<rparr>)"
  shows "P g \<Longrightarrow> conveyorLoop ops speed n g = Some g' \<Longrightarrow> P g'"
proof (induction n arbitrary: g)
  case 0
  then show ?case by simp
next
  case (Suc i)
  let ?tile = "(conveyorTiles g ! i)
                 \<lparr>position := pos_add ops (position (conveyorTiles g ! i)) speed\<rparr>"
  show ?case
  proof (cases "pos_at_end ops (position ?tile)")
    case True
    with Suc.prems(2) obtain g1 where
      h: "handleTileReachedEnd ?tile
            (g\<lparr>conveyorTiles := take i (conveyorTiles g) @ drop (Suc i) (conveyorTiles g)\<rparr>)
          = Some g1"
      and rest: "conveyorLoop ops speed i g1 = Some g'"
      by (auto simp: Let_def split: option.splits)
    from Suc.prems(1) have "P g1"
      by (intro handle [OF _ h] frame)
    then show ?thesis
      using rest by (rule Suc.IH)
  next
    case False
    with Suc.prems(2) have
      "conveyorLoop ops speed i (g\<lparr>conveyorTiles := (conveyorTiles g)[i := ?tile]\<rparr>) = Some g'"
      by (simp add: Let_def)
    moreover from Suc.prems(1) have "P (g\<lparr>conveyorTiles := (conveyorTiles g)[i := ?tile]\<rparr>)"
      by (rule frame)
    ultimately show ?thesis
      by (rule Suc.IH [rotated])
  qed
qed

lemma updateSpawning_keeps:
  "score (updateSpawning ops g) = score g \<and> level (updateSpawning ops g) = level g
   \<and> catcherColumn (updateSpawning ops g) = catcherColumn g
   \<and> rack (updateSpawning ops g) = rack g \<and> well (updateSpawning ops g) = well g
   \<and> lives (updateSpawning ops g) = lives g"
  by (simp add: updateSpawning_def spawnTile_def nextInt_def rng_next_def Let_def)

lemma engineInv_update:
  assumes "engineInv g" and "update ops g = Some g'"
  shows "engineInv g'"
proof (cases "paused g \<or> gameOver g")
  case True
  with assms show ?thesis
    by (simp add: update_def)
next
  case False
  let ?g0 = "updateSpawning ops (g\<lparr>frameCount := frameCount g + 1, events := []\<rparr>)"
  from assms(2) False obtain g1 where
    conv: "conveyorLoop ops (getTileSpeed ops ?g0) (length (conveyorTiles ?g0)) ?g0 = Some g1"
    and g': "g' = checkMatches g1"
    by (auto simp: update_def updateConveyor_def split: option.splits)
  have "engineInv ?g0"
    using assms(1)
  proof (rule engineInv_frame)
  qed (simp_all add: updateSpawning_keeps)
  have "engineInv g1"
  proof (rule conveyorLoop_preserves [where P = engineInv, OF _ _ \<open>engineInv ?g0\<close> conv])
    fix t and h h' :: "'a game"
    assume "engineInv h" and "handleTileReachedEnd t h = Some h'"
    then show "engineInv h'"
      by (rule engineInv_handleTileReachedEnd)
  next
    fix h :: "'a game" and ts
    assume "engineInv h"
    then show "engineInv (h\<lparr>conveyorTiles := ts\<rparr>)"
      by (rule engineInv_frame) simp_all
  qed
  then show ?thesis
    unfolding g'
    by (simp add: engineInv_def levelOk_checkMatches wellOk_checkMatches catcherOk_def)
qed

lemma engineInv_reset: "engineInv (reset g)"
  by (simp add: engineInv_def reset_def levelOk_def catcherOk_def wellOk_def settled_def
      rackOk_def noRun3_def)

lemma engineInv_Game_new: "engineInv (Game_new s)"
  unfolding Game_new_def by (rule engineInv_reset)

lemma engineInv_dropFromRack:
  assumes "engineInv g" and "dropFromRack g = Some (b, g')"
  shows "engineInv g'"
proof (cases "\<not> paused g \<and> \<not> gameOver g \<and> length (rack g) > 0")
  case True
  with assms(2) obtain g1 where
    drop: "dropTileIntoWell (catcherColumn g) (hd (rack g)) (g\<lparr>rack := tl (rack g)\<rparr>) = Some g1"
    and g': "g' = g1\<lparr>events := events g1 @ [DROP (catcherColumn g1) (hd (rack g))]\<rparr>"
    by (auto simp: dropFromRack_def split: option.splits)
  from assms(1) have "rackOk (tl (rack g))"
    by (auto simp: engineInv_def rackOk_def noRun3_tl)
  with assms(1) have "engineInv (g\<lparr>rack := tl (rack g)\<rparr>)"
    by (simp add: engineInv_def levelOk_def catcherOk_def)
  then show ?thesis
    unfolding g' using drop by (rule engineInv_fall)
next
  case False
  with assms show ?thesis
    by (auto simp: dropFromRack_def)
qed

lemma engineInv_step:
  assumes "engineInv g" and "step ops c g = Some g'"
  shows "engineInv g'"
proof (cases c)
  case Update
  with assms show ?thesis by (simp add: engineInv_update)
next
  case MoveLeft
  with assms show ?thesis
    by (auto simp: moveLeft_def engineInv_def levelOk_def catcherOk_def)
next
  case MoveRight
  with assms show ?thesis
    by (auto simp: moveRight_def engineInv_def levelOk_def catcherOk_def)
next
  case DropFromRack
  with assms show ?thesis by (auto simp: engineInv_dropFromRack)
next
  case TogglePause
  with assms show ?thesis
    by (auto simp: togglePause_def engineInv_def levelOk_def catcherOk_def)
next
  case Reset
  with assms show ?thesis by (auto simp: engineInv_reset)
qed

lemma engineInv_run:
  "engineInv g \<Longrightarrow> run ops cs g = Some g' \<Longrightarrow> engineInv g'"
proof (induction cs arbitrary: g)
  case Nil
  then show ?case by simp
next
  case (Cons c cs)
  from Cons.prems(2) obtain g1 where
    first: "step ops c g = Some g1" and rest: "run ops cs g1 = Some g'"
    by (auto split: option.splits)
  from Cons.prems(1) first have "engineInv g1"
    by (rule engineInv_step)
  then show ?case
    using rest by (rule Cons.IH)
qed

subsection \<open>No public call raises\<close>

lemma scaled_div_range:
  fixes s n m :: int
  assumes "0 \<le> s" and "s < m" and "0 < n"
  shows "0 \<le> s * n div m \<and> s * n div m < n"
proof -
  from assms have m: "0 < m" by simp
  from assms have "0 \<le> s * n" by simp
  with m have low: "0 \<le> s * n div m"
    by (simp add: pos_imp_zdiv_nonneg_iff)
  from assms have less: "s * n < m * n"
    by (intro mult_strict_right_mono)
  have "m * (s * n div m) + s * n mod m = s * n"
    by (rule mult_div_mod_eq)
  moreover from m have "0 \<le> s * n mod m" by simp
  ultimately have "m * (s * n div m) \<le> s * n" by linarith
  with less have "m * (s * n div m) < m * n" by linarith
  with m have "s * n div m < n"
    by (simp add: mult_less_cancel_left_pos)
  with low show ?thesis by simp
qed

lemma rng_next_seed:
  "0 \<le> seed g \<Longrightarrow> 0 \<le> seed (rng_next g) \<and> seed (rng_next g) < 233280"
  by (simp add: rng_next_def js_rem_def sgn_if)

lemma nextInt_range:
  assumes "0 \<le> seed g" and "lo \<le> hi"
  shows "lo \<le> fst (nextInt lo hi g) \<and> fst (nextInt lo hi g) \<le> hi
       \<and> 0 \<le> seed (snd (nextInt lo hi g))"
proof -
  from assms(1) have s: "0 \<le> seed (rng_next g)" "seed (rng_next g) < 233280"
    using rng_next_seed [of g] by simp_all
  from assms(2) have "0 < hi - lo + 1" by simp
  with s have "0 \<le> seed (rng_next g) * (hi - lo + 1) div 233280
      \<and> seed (rng_next g) * (hi - lo + 1) div 233280 < hi - lo + 1"
    by (intro scaled_div_range)
  with s show ?thesis
    by (simp add: nextInt_def Let_def)
qed

lemma nextInt_fields [simp]:
  "conveyorTiles (snd (nextInt lo hi g)) = conveyorTiles g"
  "level (snd (nextInt lo hi g)) = level g"
  by (simp_all add: nextInt_def rng_next_def Let_def)

lemma tilesOk_spawnTile:
  assumes "tilesOk g"
  shows "tilesOk (spawnTile ops g)"
proof -
  let ?n = "getNumColors g"
  let ?g1 = "snd (nextInt 0 (?n - 1) g)"
  let ?g2 = "snd (nextInt 0 (int WELL_COLS - 1) ?g1)"
  from assms have "0 \<le> seed ?g1"
    using rng_next_seed [of g] by (simp add: tilesOk_def nextInt_def Let_def)
  then have col: "0 \<le> fst (nextInt 0 (int WELL_COLS - 1) ?g1)
      \<and> fst (nextInt 0 (int WELL_COLS - 1) ?g1) \<le> int WELL_COLS - 1 \<and> 0 \<le> seed ?g2"
    by (intro nextInt_range) simp_all
  with assms show ?thesis
    by (simp add: spawnTile_def tilesOk_def Let_def split_def)
qed

lemma tilesOk_updateSpawning: "tilesOk g \<Longrightarrow> tilesOk (updateSpawning ops g)"
proof -
  assume ok: "tilesOk g"
  then have "tilesOk (g\<lparr>spawnTimer := 0\<rparr>)" and "tilesOk (g\<lparr>spawnTimer := spawnTimer g + 1\<rparr>)"
    by (simp_all add: tilesOk_def)
  then show ?thesis
    by (simp add: updateSpawning_def Let_def tilesOk_spawnTile)
qed

lemma handleTileReachedEnd_returns:
  assumes "engineInv g" and "0 \<le> column tile" and "column tile < int WELL_COLS"
  shows "\<exists>g'. handleTileReachedEnd tile g = Some g'
             \<and> conveyorTiles g' = conveyorTiles g \<and> seed g' = seed g"
proof (cases "column tile = catcherColumn g")
  case aligned: True
  show ?thesis
  proof (cases "length (rack g) < RACK_CAPACITY")
    case True
    let ?g1 = "g\<lparr>rack := rack g @ [colorIndex tile],
                 events := events g @ [CATCH (colorIndex tile)]\<rparr>"
    have "levelOk ?g1" and "length (rack ?g1) \<le> RACK_CAPACITY"
      using assms(1) True by (simp_all add: engineInv_def levelOk_def)
    from checkRackMatches_keeps [OF this] aligned True show ?thesis
      by (simp add: handleTileReachedEnd_def)
  next
    case False
    with aligned show ?thesis
      by (simp add: handleTileReachedEnd_def)
  qed
next
  case False
  from assms have "0 \<le> column tile \<and> column tile < int (length (well g))"
    by (simp add: engineInv_def wellOk_def)
  then obtain g1 where drop: "dropTileIntoWell (column tile) (colorIndex tile) g = Some g1"
    using dropTileIntoWell_Some [of "column tile" "colorIndex tile" g] by blast
  with False dropTileIntoWell_keeps [OF drop] show ?thesis
    by (simp add: handleTileReachedEnd_def)
qed

lemma conveyorLoop_returns:
  assumes "engineInv g" and "tilesOk g" and "n \<le> length (conveyorTiles g)"
  shows "\<exists>g'. conveyorLoop ops speed n g = Some g' \<and> tilesOk g'"
  using assms
proof (induction n arbitrary: g)
  case 0
  then show ?case by simp
next
  case (Suc i)
  let ?old = "conveyorTiles g ! i"
  let ?tile = "?old\<lparr>position := pos_add ops (position ?old) speed\<rparr>"
  from Suc.prems(3) have "?old \<in> set (conveyorTiles g)"
    by simp
  with Suc.prems(2) have col: "0 \<le> column ?tile" "column ?tile < int WELL_COLS"
    by (simp_all add: tilesOk_def)
  show ?case
  proof (cases "pos_at_end ops (position ?tile)")
    case True
    let ?g0 = "g\<lparr>conveyorTiles := take i (conveyorTiles g) @ drop (Suc i) (conveyorTiles g)\<rparr>"
    have inv0: "engineInv ?g0"
      using Suc.prems(1) by (rule engineInv_frame) simp_all
    from handleTileReachedEnd_returns [OF inv0 col] obtain g1 where
      h: "handleTileReachedEnd ?tile ?g0 = Some g1"
      and same: "conveyorTiles g1 = conveyorTiles ?g0" "seed g1 = seed ?g0"
      by blast
    have "set (take i (conveyorTiles g) @ drop (Suc i) (conveyorTiles g)) \<subseteq> set (conveyorTiles g)"
      using set_take_subset [of i "conveyorTiles g"] set_drop_subset [of "Suc i" "conveyorTiles g"]
      by auto
    with Suc.prems(2) same have "tilesOk g1"
      by (auto simp: tilesOk_def)
    moreover from inv0 h have "engineInv g1"
      by (rule engineInv_handleTileReachedEnd)
    moreover from Suc.prems(3) same have "i \<le> length (conveyorTiles g1)"
      by simp
    ultimately obtain g' where "conveyorLoop ops speed i g1 = Some g'" and "tilesOk g'"
      using Suc.IH [of g1] by blast
    with True h show ?thesis
      by (simp add: Let_def)
  next
    case False
    let ?g0 = "g\<lparr>conveyorTiles := (conveyorTiles g)[i := ?tile]\<rparr>"
    have "engineInv ?g0"
      using Suc.prems(1) by (rule engineInv_frame) simp_all
    moreover have "set ((conveyorTiles g)[i := ?tile]) \<subseteq> insert ?tile (set (conveyorTiles g))"
      by (rule set_update_subset_insert)
    with Suc.prems(2) col have "tilesOk ?g0"
      by (auto simp: tilesOk_def)
    moreover from Suc.prems(3) have "i \<le> length (conveyorTiles ?g0)"
      by simp
    ultimately obtain g' where "conveyorLoop ops speed i ?g0 = Some g'" and "tilesOk g'"
      using Suc.IH [of ?g0] by blast
    with False show ?thesis
      by (simp add: Let_def)
  qed
qed

lemma update_returns:
  assumes "engineInv g" and "tilesOk g"
  shows "\<exists>g'. update ops g = Some g' \<and> tilesOk g'"
proof (cases "paused g \<or> gameOver g")
  case True
  with assms(2) show ?thesis
    by (simp add: update_def)
next
  case False
  let ?g0 = "updateSpawning ops (g\<lparr>frameCount := frameCount g + 1, events := []\<rparr>)"
  have "engineInv ?g0"
    using assms(1)
  proof (rule engineInv_frame)
  qed (simp_all add: updateSpawning_keeps)
  moreover from assms(2) have "tilesOk (g\<lparr>frameCount := frameCount g + 1, events := []\<rparr>)"
    by (simp add: tilesOk_def)
  then have "tilesOk ?g0"
    by (rule tilesOk_updateSpawning)
  ultimately obtain g1 where
    "conveyorLoop ops (getTileSpeed ops ?g0) (length (conveyorTiles ?g0)) ?g0 = Some g1"
    and "tilesOk g1"
    using conveyorLoop_returns [of ?g0 "length (conveyorTiles ?g0)"] by blast
  with False show ?thesis
    by (simp add: update_def updateConveyor_def tilesOk_def)
qed

lemma step_returns:
  assumes "engineInv g" and "tilesOk g"
  shows "\<exists>g'. step ops c g = Some g' \<and> tilesOk g'"
proof (cases c)
  case Update
  with update_returns [OF assms] show ?thesis by simp
next
  case MoveLeft
  with assms(2) show ?thesis by (simp add: moveLeft_def tilesOk_def)
next
  case MoveRight
  with assms(2) show ?thesis by (simp add: moveRight_def tilesOk_def)
next
  case DropFromRack
  show ?thesis
  proof (cases "\<not> paused g \<and> \<not> gameOver g \<and> length (rack g) > 0")
    case True
    from assms(1) have "0 \<le> catcherColumn g \<and> catcherColumn g < int (length (well g))"
      by (simp add: engineInv_def catcherOk_def wellOk_def)
    then obtain g1 where
      drop: "dropTileIntoWell (catcherColumn g) (hd (rack g)) (g\<lparr>rack := tl (rack g)\<rparr>) = Some g1"
      using dropTileIntoWell_Some [of "catcherColumn g" "hd (rack g)" "g\<lparr>rack := tl (rack g)\<rparr>"]
      by auto
    with True assms(2) dropTileIntoWell_keeps [OF drop] DropFromRack show ?thesis
      by (simp add: dropFromRack_def tilesOk_def)
  next
    case False
    with assms(2) DropFromRack show ?thesis
      by (auto simp: dropFromRack_def)
  qed
next
  case TogglePause
  with assms(2) show ?thesis by (simp add: togglePause_def tilesOk_def)
next
  case Reset
  with assms(2) show ?thesis by (simp add: reset_def tilesOk_def)
qed

text \<open>
  From a fresh engine with a non-negative seed every sequence of public calls runs to
  its end: no call raises.
\<close>

lemma run_returns:
  assumes "engineInv g" and "tilesOk g"
  shows "\<exists>g'. run ops cs g = Some g'"
  using assms
proof (induction cs arbitrary: g)
  case Nil
  show ?case by simp
next
  case (Cons c cs)
  from step_returns [OF Cons.prems] obtain g1 where
    first: "step ops c g = Some g1" and "tilesOk g1"
    by blast
  moreover from Cons.prems(1) first have "engineInv g1"
    by (rule engineInv_step)
  ultimately obtain g' where "run ops cs g1 = Some g'"
    using Cons.IH by blast
  with first show ?case by simp
qed

lemma run_from_fresh_returns: "0 \<le> s \<Longrightarrow> \<exists>g. run ops cs (Game_new s) = Some g"
proof -
  assume "0 \<le> s"
  then have "tilesOk (Game_new s)"
    by (simp add: tilesOk_def Game_new_def reset_def)
  with engineInv_Game_new show ?thesis
    by (rule run_returns)
qed

subsection \<open>Events are only ever pushed\<close>

lemma prepend_fields [simp]:
  "seed (prepend es g) = seed g"
  "score (prepend es g) = score g"
  "level (prepend es g) = level g"
  "lives (prepend es g) = lives g"
  "paused (prepend es g) = paused g"
  "gameOver (prepend es g) = gameOver g"
  "conveyorTiles (prepend es g) = conveyorTiles g"
  "nextTileId (prepend es g) = nextTileId g"
  "spawnTimer (prepend es g) = spawnTimer g"
  "catcherColumn (prepend es g) = catcherColumn g"
  "rack (prepend es g) = rack g"
  "well (prepend es g) = well g"
  "frameCount (prepend es g) = frameCount g"
  "events (prepend es g) = es @ events g"
  by (simp_all add: prepend_def)

lemma checkLevelUp_prepend: "checkLevelUp (prepend es g) = prepend es (checkLevelUp g)"
  by (simp add: checkLevelUp_def prepend_def Let_def)

lemma loseLife_prepend: "loseLife reason (prepend es g) = prepend es (loseLife reason g)"
  by (simp add: loseLife_def prepend_def Let_def)

lemma spliceRun_prepend:
  "spliceRun (prepend es g) start len = prepend es (spliceRun g start len)"
  by (simp add: spliceRun_def checkLevelUp_def prepend_def Let_def)

lemma checkRackMatches_prepend:
  "checkRackMatches (prepend es g) = prepend es (checkRackMatches g)"
proof (induction g rule: checkRackMatches.induct)
  case (1 g)
  show ?case
  proof (cases "length (rack g) < 3")
    case True
    then show ?thesis
      by (simp add: checkRackMatches_short)
  next
    case long: False
    show ?thesis
    proof (cases "rackScan (rack g) 0")
      case None
      then show ?thesis
        by (simp add: checkRackMatches_none)
    next
      case (Some x)
      obtain start len where x: "x = (start, len)"
        by (cases x)
      have "checkRackMatches (prepend es g) = checkRackMatches (spliceRun (prepend es g) start len)"
        using long Some x by (intro checkRackMatches_found) simp_all
      also have "\<dots> = checkRackMatches (prepend es (spliceRun g start len))"
        by (simp add: spliceRun_prepend)
      also have "\<dots> = prepend es (checkRackMatches (spliceRun g start len))"
        using "1.IH" [OF long Some x [symmetric]] by (simp add: spliceRun_def)
      also have "checkRackMatches (spliceRun g start len) = checkRackMatches g"
        using long Some x by (simp add: checkRackMatches_found)
      finally show ?thesis .
    qed
  qed
qed

lemma dropLoop_prepend:
  "dropLoop n col color (prepend es g) = prepend es (dropLoop n col color g)"
proof (induction n)
  case 0
  show ?case by (simp add: loseLife_prepend)
next
  case (Suc n)
  have "prepend es g\<lparr>well := w\<rparr> = prepend es (g\<lparr>well := w\<rparr>)" for w
    by (simp add: prepend_def)
  with Suc show ?case by simp
qed

lemma dropTileIntoWell_prepend:
  "dropTileIntoWell col color (prepend es g)
   = map_option (prepend es) (dropTileIntoWell col color g)"
  by (simp add: dropTileIntoWell_def dropLoop_prepend)

lemma handleTileReachedEnd_prepend:
  "handleTileReachedEnd tile (prepend es g)
   = map_option (prepend es) (handleTileReachedEnd tile g)"
proof (cases "column tile = catcherColumn g")
  case aligned: True
  show ?thesis
  proof (cases "length (rack g) < RACK_CAPACITY")
    case True
    have eq: "prepend es g\<lparr>rack := rack g @ [colorIndex tile],
                         events := es @ events g @ [CATCH (colorIndex tile)]\<rparr>
          = prepend es (g\<lparr>rack := rack g @ [colorIndex tile],
                           events := events g @ [CATCH (colorIndex tile)]\<rparr>)"
      by (simp add: prepend_def)
    from aligned True show ?thesis
      by (simp add: handleTileReachedEnd_def) (simp only: eq checkRackMatches_prepend)
  next
    case False
    with aligned show ?thesis
      by (simp add: handleTileReachedEnd_def loseLife_prepend)
  qed
next
  case False
  show ?thesis
  proof (cases "dropTileIntoWell (column tile) (colorIndex tile) g")
    case None
    with False show ?thesis
      by (simp add: handleTileReachedEnd_def dropTileIntoWell_prepend)
  next
    case (Some g1)
    with False show ?thesis
      by (simp add: handleTileReachedEnd_def dropTileIntoWell_prepend)
  qed
qed

lemma conveyorLoop_prepend:
  "conveyorLoop ops speed n (prepend es g) = map_option (prepend es) (conveyorLoop ops speed n g)"
proof (induction n arbitrary: g)
  case 0
  show ?case by simp
next
  case (Suc i)
  have upd: "prepend es g\<lparr>conveyorTiles := ts\<rparr> = prepend es (g\<lparr>conveyorTiles := ts\<rparr>)" for ts
    by (simp add: prepend_def)
  show ?case
    by (simp add: Let_def upd handleTileReachedEnd_prepend Suc.IH split: option.splits)
qed

lemma updateConveyor_prepend:
  "updateConveyor ops (prepend es g) = map_option (prepend es) (updateConveyor ops g)"
  by (simp add: updateConveyor_def getTileSpeed_def conveyorLoop_prepend)

lemma updateSpawning_prepend:
  "updateSpawning ops (prepend es g) = prepend es (updateSpawning ops g)"
  by (simp add: updateSpawning_def spawnTile_def nextInt_def rng_next_def Let_def
      getSpawnInterval_def getNumColors_def prepend_def)

lemma checkMatches_prepend: "checkMatches (prepend es g) = prepend es (checkMatches g)"
  by (simp add: checkMatches_def applyGravity_def checkLevelUp_def Let_def prepend_def)

text \<open>
  No phase of a tick assigns the buffer or reads it: started with \<open>es\<close> in front of the
  buffer, the tick ends in the same state with \<open>es\<close> in front of the buffer.
\<close>

lemma tick_prepend: "tick ops (prepend es g) = map_option (prepend es) (tick ops g)"
  by (simp add: tick_def updateSpawning_prepend updateConveyor_prepend checkMatches_prepend
      split: option.splits)

lemma update_tick:
  "\<not> paused g \<Longrightarrow> \<not> gameOver g \<Longrightarrow>
   update ops g = tick ops (g\<lparr>frameCount := frameCount g + 1, events := []\<rparr>)"
  by (simp add: update_def tick_def)

subsection \<open>The sample game\<close>

lemma run_append:
  "run ops (as @ bs) g = (case run ops as g of None \<Rightarrow> None | Some g1 \<Rightarrow> run ops bs g1)"
  by (induction as arbitrary: g) (simp_all split: option.splits)

lemma run_calls1: "run hundredths calls1 (Game_new 1) = Some state1"
  by code_simp

lemma run_calls2: "run hundredths calls2 state1 = Some state2"
  by code_simp

lemma run_sample: "run hundredths (calls1 @ calls2) (Game_new 1) = Some state2"
  by (simp add: run_append run_calls1 run_calls2)

lemma update_state2: "update hundredths state2 = Some state3"
  by code_simp

lemma run_paused: "run hundredths paused_calls (Game_new 1) = Some paused_state"
  by code_simp

lemma run_calls3: "run hundredths calls3 state1 = Some before666"
  by code_simp

lemma run_before666: "run hundredths (calls1 @ calls3) (Game_new 1) = Some before666"
  by (simp add: run_append run_calls1 run_calls3)

lemma update_before666: "update hundredths before666 = Some state2"
  by code_simp

lemma engineInv_reachable: "run ops cs (Game_new s) = Some g \<Longrightarrow> engineInv g"
  using engineInv_Game_new by (rule engineInv_run)

subsection \<open>Well matches\<close>

lemma findMatches_diag4:
  "findMatches diag4_well =
     [WellMatch Diagonal_dr [(0, 1), (1, 2), (2, 3), (3, 4)] 0,
      WellMatch Diagonal_dr [(1, 2), (2, 3), (3, 4)] 0]"
  by code_simp

text \<open>A horizontal run of four is reported once and adds 300 to the score.\<close>

lemma findMatches_row4:
  "findMatches row4_well = [WellMatch Horizontal [(0, 4), (1, 4), (2, 4), (3, 4)] 0]"
  by code_simp

lemma horizontal_run_of_four_reported_once:
  "score (checkMatches (g\<lparr>well := row4_well\<rparr>)) = score g + 300"
  by (simp add: findMatches_row4 checkMatches_def totalPoints_def matchPoints_def)

text \<open>
  C1. The per-tick scan is to report every maximal run of three or more once, at its
  full length and with no sub-run beside it, so that an isolated run of four adds 300
  to the score. On the well \<^term>\<open>diag4_well\<close>, whose only run is a down-right diagonal
  of four cells, the scan reports that run and then, from the run's second cell, its
  last three cells again; the score grows by 300 + 100. The horizontal and vertical
  scans skip past a run they have found; the two diagonal scans do not.
\<close>

theorem diagonal_run_of_four_reported_twice:
  "findMatches diag4_well =
     [WellMatch Diagonal_dr [(0, 1), (1, 2), (2, 3), (3, 4)] 0,
      WellMatch Diagonal_dr [(1, 2), (2, 3), (3, 4)] 0]
   \<and> score (checkMatches (g\<lparr>well := diag4_well\<rparr>)) = score g + 400"
  by (simp add: findMatches_diag4 checkMatches_def totalPoints_def matchPoints_def)

subsection \<open>The level\<close>

text \<open>
  C2. In every state that a sequence of public calls reaches from a fresh engine, the
  stored level equals \<open>floor(score / 1000) + 1\<close>.
\<close>

theorem level_follows_score:
  "run ops cs (Game_new s) = Some g \<Longrightarrow> level g = score g div LEVEL_UP_THRESHOLD + 1"
  using engineInv_reachable [of ops cs s g] by (simp add: engineInv_def levelOk_def)

theorem level_follows_score_witness:
  "run hundredths (calls1 @ calls2) (Game_new 1) = Some state2
   \<and> score state2 = 100 \<and> level state2 = score state2 div LEVEL_UP_THRESHOLD + 1"
  using level_follows_score [OF run_sample] run_sample by (simp add: state2_def)

subsection \<open>The well after a tick\<close>

text \<open>
  C3. In a state reached from a fresh engine, after any call of \<^verbatim>\<open>update()\<close> that
  completes, no column of the well has an empty cell below a filled one: the filled
  cells of each column are a contiguous block that ends at the bottom row. (By
  \<open>run_from_fresh_returns\<close> every call completes when the seed is not negative.)
\<close>

theorem well_settled_after_update:
  assumes "run ops cs (Game_new s) = Some g" and "update ops g = Some g'"
    and "col < WELL_COLS" and "i < j" and "j < WELL_ROWS"
    and "well g' ! col ! i \<noteq> None"
  shows "well g' ! col ! j \<noteq> None"
proof -
  from assms(1,2) have "run ops (cs @ [Update]) (Game_new s) = Some g'"
    by (simp add: run_append)
  then have "wellOk (well g')"
    using engineInv_reachable by (auto simp: engineInv_def)
  with assms(3) have "length (well g' ! col) = WELL_ROWS" and "settled (well g' ! col)"
    using wellOk_column [of "well g'" col] by simp_all
  with assms(4-6) show ?thesis
    unfolding settled_def by (metis less_trans)
qed

theorem well_settled_after_update_witness:
  "run hundredths (calls1 @ calls2) (Game_new 1) = Some state2
   \<and> update hundredths state2 = Some state3
   \<and> well state3 ! 3 ! 3 \<noteq> None \<and> well state3 ! 3 ! 4 \<noteq> None"
proof -
  have filled: "well state3 ! 3 ! 3 \<noteq> None"
    by (simp add: state3_def state2_def)
  have "well state3 ! 3 ! 4 \<noteq> None"
    by (rule well_settled_after_update [OF run_sample update_state2 _ _ _ filled]) simp_all
  with run_sample update_state2 filled show ?thesis
    by simp
qed

subsection \<open>The rack\<close>

text \<open>
  C10. In every state that a sequence of public calls reaches from a fresh engine, the
  rack holds no three neighbouring entries of the same colour.
\<close>

theorem rack_has_no_run_of_three:
  assumes "run ops cs (Game_new s) = Some g" and "i + 2 < length (rack g)"
  shows "\<not> (rack g ! i = rack g ! (i + 1) \<and> rack g ! (i + 1) = rack g ! (i + 2))"
proof -
  from assms(1) have "noRun3 (rack g)"
    using engineInv_reachable by (auto simp: engineInv_def rackOk_def)
  with assms(2) show ?thesis
    unfolding noRun3_def by blast
qed

theorem rack_has_no_run_of_three_witness:
  "run hundredths calls1 (Game_new 1) = Some state1 \<and> rack state1 = [0, 1, 2, 2]
   \<and> \<not> (rack state1 ! 1 = rack state1 ! (1 + 1) \<and> rack state1 ! (1 + 1) = rack state1 ! (1 + 2))"
proof -
  have "1 + 2 < length (rack state1)"
    by (simp add: state1_def)
  from rack_has_no_run_of_three [OF run_calls1 this] run_calls1 show ?thesis
    by (simp add: state1_def)
qed

text \<open>
  C7. When \<^verbatim>\<open>checkRackMatches\<close> runs on a rack \<open>[A, A, A, B, B, B]\<close> with \<open>A \<noteq> B\<close>,
  both runs are spliced out in that call: the rack is left empty and the score grows by
  100 for each run. The table of points for a rack run is the table for a well match.
\<close>

theorem rack_runs_cascade:
  assumes "A \<noteq> B" and "rack g = [A, A, A, B, B, B]"
  shows "rack (checkRackMatches g) = [] \<and> score (checkRackMatches g) = score g + 100 + 100
    \<and> rackPoints n = matchPoints n"
proof -
  from assms have ba: "B \<noteq> A" by simp
  have l1: "rackLength [A, A, A, B, B, B] 0 A (Suc 0) = 3"
    using ba by (simp add: rackLength.simps)
  have s1: "rackScan (rack g) 0 = Some (0, 3)"
    unfolding assms by (subst rackScan.simps) (simp add: l1)
  define g1 where "g1 = spliceRun g 0 3"
  define g2 where "g2 = spliceRun g1 0 3"
  have step1: "checkRackMatches g = checkRackMatches g1"
    unfolding g1_def by (rule checkRackMatches_found [OF _ s1]) (simp add: assms)
  have r1: "rack g1 = [B, B, B]" and sc1: "score g1 = score g + 100"
    by (simp_all add: g1_def assms rackPoints_def)
  have l2: "rackLength [B, B, B] 0 B (Suc 0) = 3"
    by (simp add: rackLength.simps)
  have s2: "rackScan (rack g1) 0 = Some (0, 3)"
    unfolding r1 by (subst rackScan.simps) (simp add: l2)
  have step2: "checkRackMatches g1 = checkRackMatches g2"
    unfolding g2_def by (rule checkRackMatches_found [OF _ s2]) (simp add: r1)
  have r2: "rack g2 = []" and sc2: "score g2 = score g + 100 + 100"
    by (simp_all add: g2_def r1 sc1 rackPoints_def)
  have step3: "checkRackMatches g2 = g2"
    by (rule checkRackMatches_short) (simp add: r2)
  show ?thesis
    by (simp add: step1 step2 step3 r2 sc2 rackPoints_def matchPoints_def)
qed

theorem rack_runs_cascade_witness:
  "rack (checkRackMatches (fresh1\<lparr>rack := [0, 0, 0, 1, 1, 1]\<rparr>)) = []
   \<and> score (checkRackMatches (fresh1\<lparr>rack := [0, 0, 0, 1, 1, 1]\<rparr>)) = 200"
  using rack_runs_cascade [of 0 1 "fresh1\<lparr>rack := [0, 0, 0, 1, 1, 1]\<rparr>"]
  by (simp add: fresh1_def Game_new_def reset_def)

subsection \<open>Overflow\<close>

lemma dropLoop_full:
  "\<forall>row<n. well g ! col ! row \<noteq> None \<Longrightarrow>
   dropLoop n col color g = loseLife ''Well column full'' g"
  by (induction n) auto

lemma dropLoop_place:
  assumes "row < n" and "well g ! col ! row = None"
    and "\<forall>r. row < r \<and> r < n \<longrightarrow> well g ! col ! r \<noteq> None"
  shows "dropLoop n col color g =
           g\<lparr>well := (well g)[col := (well g ! col)[row := Some color]]\<rparr>"
  using assms
proof (induction n)
  case 0
  then show ?case by simp
next
  case (Suc n)
  show ?case
  proof (cases "row = n")
    case True
    with Suc.prems show ?thesis by simp
  next
    case False
    with Suc.prems have below: "row < n" and filled: "well g ! col ! n \<noteq> None"
      by auto
    from Suc.prems have "\<forall>r. row < r \<and> r < n \<longrightarrow> well g ! col ! r \<noteq> None"
      by auto
    with below Suc.prems(2) have "dropLoop n col color g =
        g\<lparr>well := (well g)[col := (well g ! col)[row := Some color]]\<rparr>"
      by (rule Suc.IH)
    with filled show ?thesis by auto
  qed
qed

text \<open>
  C4. A tile routed into a well column that has no empty cell, whether it falls off the
  conveyor at its own column or is dropped from the rack into the catcher's column,
  costs exactly one life, emits a life-lost event with the reason
  \<^verbatim>\<open>'Well column full'\<close> (followed by the game-over event when no life is left), and
  leaves the well as it was. A falling tile that finds an empty cell is placed in the
  lowest one, and a tile-fall event is emitted.
\<close>

theorem full_well_column_costs_a_life:
  "(column tile \<noteq> catcherColumn g \<and> 0 \<le> column tile \<and> column tile < int (length (well g))
      \<and> (\<forall>row<WELL_ROWS. well g ! nat (column tile) ! row \<noteq> None)
    \<longrightarrow> (\<exists>g'. handleTileReachedEnd tile g = Some g'
          \<and> lives g' = lives g - 1 \<and> well g' = well g
          \<and> events g' = events g @ [LIFE_LOST (lives g - 1) ''Well column full'']
               @ (if lives g - 1 \<le> 0 then [GAME_OVER (score g) (level g)] else [])
               @ [TILE_FALL (column tile) (colorIndex tile)]))
   \<and> (\<not> paused g \<and> \<not> gameOver g \<and> rack g \<noteq> []
      \<and> 0 \<le> catcherColumn g \<and> catcherColumn g < int (length (well g))
      \<and> (\<forall>row<WELL_ROWS. well g ! nat (catcherColumn g) ! row \<noteq> None)
    \<longrightarrow> (\<exists>g'. dropFromRack g = Some (True, g')
          \<and> lives g' = lives g - 1 \<and> well g' = well g
          \<and> events g' = events g @ [LIFE_LOST (lives g - 1) ''Well column full'']
               @ (if lives g - 1 \<le> 0 then [GAME_OVER (score g) (level g)] else [])
               @ [DROP (catcherColumn g) (hd (rack g))]))
   \<and> (column tile \<noteq> catcherColumn g \<and> 0 \<le> column tile \<and> column tile < int (length (well g))
      \<and> row < WELL_ROWS \<and> well g ! nat (column tile) ! row = None
      \<and> (\<forall>r. row < r \<and> r < WELL_ROWS \<longrightarrow> well g ! nat (column tile) ! r \<noteq> None)
    \<longrightarrow> handleTileReachedEnd tile g =
          Some (g\<lparr>well := (well g)[nat (column tile) :=
                            (well g ! nat (column tile))[row := Some (colorIndex tile)]],
                  events := events g @ [TILE_FALL (column tile) (colorIndex tile)]\<rparr>))"
proof (intro conjI impI)
  assume h: "column tile \<noteq> catcherColumn g \<and> 0 \<le> column tile
      \<and> column tile < int (length (well g))
      \<and> (\<forall>row<WELL_ROWS. well g ! nat (column tile) ! row \<noteq> None)"
  then have "dropLoop WELL_ROWS (nat (column tile)) (colorIndex tile) g
             = loseLife ''Well column full'' g"
    by (intro dropLoop_full) simp
  with h show "\<exists>g'. handleTileReachedEnd tile g = Some g'
          \<and> lives g' = lives g - 1 \<and> well g' = well g
          \<and> events g' = events g @ [LIFE_LOST (lives g - 1) ''Well column full'']
               @ (if lives g - 1 \<le> 0 then [GAME_OVER (score g) (level g)] else [])
               @ [TILE_FALL (column tile) (colorIndex tile)]"
    by (simp add: handleTileReachedEnd_def dropTileIntoWell_def loseLife_events)
next
  assume h: "\<not> paused g \<and> \<not> gameOver g \<and> rack g \<noteq> []
      \<and> 0 \<le> catcherColumn g \<and> catcherColumn g < int (length (well g))
      \<and> (\<forall>row<WELL_ROWS. well g ! nat (catcherColumn g) ! row \<noteq> None)"
  let ?g1 = "g\<lparr>rack := tl (rack g)\<rparr>"
  from h have "\<forall>row<WELL_ROWS. well ?g1 ! nat (catcherColumn g) ! row \<noteq> None"
    by simp
  then have "dropLoop WELL_ROWS (nat (catcherColumn g)) (hd (rack g)) ?g1
             = loseLife ''Well column full'' ?g1"
    by (rule dropLoop_full)
  with h show "\<exists>g'. dropFromRack g = Some (True, g')
          \<and> lives g' = lives g - 1 \<and> well g' = well g
          \<and> events g' = events g @ [LIFE_LOST (lives g - 1) ''Well column full'']
               @ (if lives g - 1 \<le> 0 then [GAME_OVER (score g) (level g)] else [])
               @ [DROP (catcherColumn g) (hd (rack g))]"
    by (simp add: dropFromRack_def dropTileIntoWell_def loseLife_events)
next
  assume h: "column tile \<noteq> catcherColumn g \<and> 0 \<le> column tile
      \<and> column tile < int (length (well g))
      \<and> row < WELL_ROWS \<and> well g ! nat (column tile) ! row = None
      \<and> (\<forall>r. row < r \<and> r < WELL_ROWS \<longrightarrow> well g ! nat (column tile) ! r \<noteq> None)"
  then have "dropLoop WELL_ROWS (nat (column tile)) (colorIndex tile) g =
      g\<lparr>well := (well g)[nat (column tile) :=
                    (well g ! nat (column tile))[row := Some (colorIndex tile)]]\<rparr>"
    by (intro dropLoop_place) simp_all
  with h show "handleTileReachedEnd tile g =
          Some (g\<lparr>well := (well g)[nat (column tile) :=
                            (well g ! nat (column tile))[row := Some (colorIndex tile)]],
                  events := events g @ [TILE_FALL (column tile) (colorIndex tile)]\<rparr>)"
    by (simp add: handleTileReachedEnd_def dropTileIntoWell_def)
qed

theorem full_well_column_costs_a_life_witness:
  "(\<exists>g'. handleTileReachedEnd (arriving_tile 0) full_column_game = Some g'
        \<and> lives g' = lives full_column_game - 1 \<and> well g' = well full_column_game
        \<and> events g' = [LIFE_LOST 2 ''Well column full'', TILE_FALL 0 1])
   \<and> (\<exists>g'. dropFromRack (full_column_game\<lparr>catcherColumn := 0\<rparr>) = Some (True, g')
        \<and> lives g' = lives full_column_game - 1 \<and> well g' = well full_column_game
        \<and> events g' = [LIFE_LOST 2 ''Well column full'', DROP 0 2])
   \<and> handleTileReachedEnd (arriving_tile 0) fresh1 =
        Some (fresh1\<lparr>well := (well fresh1)[0 := (well fresh1 ! 0)[4 := Some 1]],
                     events := [TILE_FALL 0 1]\<rparr>)"
proof -
  have full: "\<forall>row<WELL_ROWS. well full_column_game ! 0 ! row \<noteq> None"
    by (auto simp: full_column_game_def less_Suc_eq numeral_eq_Suc)
  have free: "\<forall>r. 4 < r \<and> r < WELL_ROWS \<longrightarrow> well fresh1 ! 0 ! r \<noteq> None"
    by auto
  from full free
    full_well_column_costs_a_life [of "arriving_tile 0" full_column_game]
    full_well_column_costs_a_life [of _ "full_column_game\<lparr>catcherColumn := 0\<rparr>"]
    full_well_column_costs_a_life [of "arriving_tile 0" fresh1 4]
  show ?thesis
    by (simp add: arriving_tile_def full_column_game_def fresh1_def Game_new_def reset_def)
qed

text \<open>
  C5. A tile that reaches the end of the conveyor at the catcher's column while the rack
  holds five entries leaves the rack and the well as they were, costs exactly one life
  and emits a life-lost event with the reason \<^verbatim>\<open>'Rack overflow'\<close> (followed by the
  game-over event when no life is left). In every state reached from a fresh engine the
  rack holds at most five entries.
\<close>

theorem full_rack_costs_a_life:
  "(column tile = catcherColumn g \<and> length (rack g) = RACK_CAPACITY
    \<longrightarrow> (\<exists>g'. handleTileReachedEnd tile g = Some g'
          \<and> rack g' = rack g \<and> well g' = well g \<and> lives g' = lives g - 1
          \<and> events g' = events g @ [LIFE_LOST (lives g - 1) ''Rack overflow'']
               @ (if lives g - 1 \<le> 0 then [GAME_OVER (score g) (level g)] else [])))
   \<and> (run ops cs (Game_new s) = Some h \<longrightarrow> length (rack h) \<le> RACK_CAPACITY)"
proof (intro conjI impI)
  assume "column tile = catcherColumn g \<and> length (rack g) = RACK_CAPACITY"
  then show "\<exists>g'. handleTileReachedEnd tile g = Some g'
          \<and> rack g' = rack g \<and> well g' = well g \<and> lives g' = lives g - 1
          \<and> events g' = events g @ [LIFE_LOST (lives g - 1) ''Rack overflow'']
               @ (if lives g - 1 \<le> 0 then [GAME_OVER (score g) (level g)] else [])"
    by (simp add: handleTileReachedEnd_def loseLife_events)
next
  assume "run ops cs (Game_new s) = Some h"
  then have "engineInv h"
    by (rule engineInv_reachable)
  then show "length (rack h) \<le> RACK_CAPACITY"
    by (simp add: engineInv_def rackOk_def)
qed

theorem full_rack_costs_a_life_witness:
  "(\<exists>g'. handleTileReachedEnd (arriving_tile 2) full_rack_game = Some g'
        \<and> rack g' = [0, 1, 0, 1, 0] \<and> well g' = well full_rack_game \<and> lives g' = 2
        \<and> events g' = [LIFE_LOST 2 ''Rack overflow''])
   \<and> run hundredths calls1 (Game_new 1) = Some state1 \<and> length (rack state1) \<le> RACK_CAPACITY"
  using full_rack_costs_a_life [of "arriving_tile 2" full_rack_game hundredths calls1 1 state1]
    run_calls1
  by (simp add: arriving_tile_def full_rack_game_def fresh1_def Game_new_def reset_def)

subsection \<open>The event buffer\<close>

text \<open>
  C6, as the engine has it. A call of \<^verbatim>\<open>update()\<close> made while the game is neither
  paused nor over clears the event buffer and then runs the three phases of the tick,
  which push events onto the buffer and never assign it: had they run on a buffer
  holding any list \<open>es\<close>, they would have left \<open>es\<close> followed by the events they
  pushed. What \<^verbatim>\<open>getEvents()\<close> returns after the call is exactly that list of pushed
  events, with nothing of an earlier tick in front of it; and the state the call leaves,
  the buffer included, does not depend on what the buffer held before. A call made while
  the game is paused or over returns at once and leaves the whole state, the buffer
  included, as it was.
\<close>

theorem update_rebuilds_events_unless_paused_or_over:
  "(\<not> paused g \<and> \<not> gameOver g \<and> update ops g = Some g'
      \<longrightarrow> tick ops (g\<lparr>frameCount := frameCount g + 1, events := es\<rparr>)
          = Some (g'\<lparr>events := es @ fst (getEvents g')\<rparr>))
   \<and> (\<not> paused g \<and> \<not> gameOver g \<longrightarrow> update ops (g\<lparr>events := es\<rparr>) = update ops (g\<lparr>events := []\<rparr>))
   \<and> (paused g \<or> gameOver g \<longrightarrow> update ops g = Some g)"
proof (intro conjI impI)
  assume active: "\<not> paused g \<and> \<not> gameOver g \<and> update ops g = Some g'"
  let ?g0 = "g\<lparr>frameCount := frameCount g + 1, events := []\<rparr>"
  from active have cleared: "tick ops ?g0 = Some g'"
    using update_tick [of g ops] by simp
  have "g\<lparr>frameCount := frameCount g + 1, events := es\<rparr> = prepend es ?g0"
    by (simp add: prepend_def)
  then have "tick ops (g\<lparr>frameCount := frameCount g + 1, events := es\<rparr>)
             = map_option (prepend es) (tick ops ?g0)"
    by (simp only: tick_prepend)
  with cleared show "tick ops (g\<lparr>frameCount := frameCount g + 1, events := es\<rparr>)
                     = Some (g'\<lparr>events := es @ fst (getEvents g')\<rparr>)"
    by (simp add: prepend_def getEvents_def)
next
  assume "\<not> paused g \<and> \<not> gameOver g"
  then show "update ops (g\<lparr>events := es\<rparr>) = update ops (g\<lparr>events := []\<rparr>)"
    by (simp add: update_def)
next
  assume "paused g \<or> gameOver g"
  then show "update ops g = Some g"
    by (simp add: update_def)
qed

theorem update_rebuilds_events_unless_paused_or_over_witness:
  "run hundredths (calls1 @ calls3) (Game_new 1) = Some before666
   \<and> fst (getEvents before666) = [DROP 3 0, DROP 3 1]
   \<and> update hundredths before666 = Some state2
   \<and> fst (getEvents state2) = [CATCH 2, MATCH [RackMatch [2, 2, 2] 2] 100]
   \<and> tick hundredths (before666\<lparr>frameCount := 666\<rparr>)
       = Some (state2\<lparr>events := [DROP 3 0, DROP 3 1, CATCH 2, MATCH [RackMatch [2, 2, 2] 2] 100]\<rparr>)
   \<and> update hundredths (before666\<lparr>events := []\<rparr>) = Some state2
   \<and> update hundredths paused_state = Some paused_state"
proof -
  have active: "\<not> paused before666 \<and> \<not> gameOver before666
      \<and> update hundredths before666 = Some state2"
    using update_before666 by (simp add: before666_def)
  have old: "before666\<lparr>frameCount := frameCount before666 + 1, events := [DROP 3 0, DROP 3 1]\<rparr>
             = before666\<lparr>frameCount := 666\<rparr>"
    by (simp add: before666_def)
  have "paused paused_state"
    by (simp add: paused_state_def)
  with active old run_before666
    update_rebuilds_events_unless_paused_or_over
      [of before666 hundredths state2 "[DROP 3 0, DROP 3 1]"]
    update_rebuilds_events_unless_paused_or_over [of paused_state hundredths]
  show ?thesis
    by (simp add: getEvents_def before666_def state2_def)
qed

text \<open>
  The claim C6 as it is written fails for a paused game. The game paused right after
  tick 120 is reached from a fresh engine; its buffer holds the spawn event of that
  tick. A further call of \<^verbatim>\<open>update()\<close> returns the same state, so \<^verbatim>\<open>getEvents()\<close>
  afterwards returns the event of the earlier tick although the call generated no
  event, and the result of the call depends on the buffer it started from.
\<close>

theorem update_while_paused_keeps_old_events:
  "run hundredths paused_calls (Game_new 1) = Some paused_state
   \<and> update hundredths paused_state = Some paused_state
   \<and> fst (getEvents paused_state) = [TILE_SPAWN 0]
   \<and> update hundredths paused_state \<noteq> update hundredths (paused_state\<lparr>events := []\<rparr>)"
  using run_paused by (simp add: update_def getEvents_def paused_state_def)

text \<open>
  C8. \<^verbatim>\<open>getEvents()\<close> is a pure read: it returns the buffer and leaves the engine as it
  was, so a second call returns the same list as the first; the same holds when calls
  that do not write events (moves, the pause toggle) come between the two.
\<close>

theorem getEvents_is_a_pure_read:
  "getEvents g = (events g, g)
   \<and> fst (getEvents (snd (getEvents g))) = fst (getEvents g)
   \<and> fst (getEvents (snd (moveLeft (snd (getEvents g))))) = fst (getEvents g)
   \<and> fst (getEvents (snd (moveRight (snd (getEvents g))))) = fst (getEvents g)
   \<and> fst (getEvents (togglePause (snd (getEvents g)))) = fst (getEvents g)"
  by (simp add: getEvents_def moveLeft_def moveRight_def togglePause_def)

subsection \<open>The catcher\<close>

text \<open>
  C9. The catcher starts at column 2 on a fresh or reset engine. \<^verbatim>\<open>moveLeft()\<close> and
  \<^verbatim>\<open>moveRight()\<close> shift it by one and return true when the game is neither paused nor
  over and the catcher is not at the bound; otherwise they return false and change
  nothing. In every state reached from a fresh engine the catcher column is in [0, 4].
\<close>

theorem catcher_moves_within_bounds:
  "catcherColumn (Game_new s :: 'p game) = 2 \<and> catcherColumn (reset g) = 2
   \<and> (\<not> paused g \<and> \<not> gameOver g \<and> 0 < catcherColumn g
        \<longrightarrow> moveLeft g = (True, g\<lparr>catcherColumn := catcherColumn g - 1\<rparr>))
   \<and> (paused g \<or> gameOver g \<or> catcherColumn g \<le> 0 \<longrightarrow> moveLeft g = (False, g))
   \<and> (\<not> paused g \<and> \<not> gameOver g \<and> catcherColumn g < 4
        \<longrightarrow> moveRight g = (True, g\<lparr>catcherColumn := catcherColumn g + 1\<rparr>))
   \<and> (paused g \<or> gameOver g \<or> 4 \<le> catcherColumn g \<longrightarrow> moveRight g = (False, g))
   \<and> (run ops cs (Game_new s') = Some h \<longrightarrow> 0 \<le> catcherColumn h \<and> catcherColumn h \<le> 4)"
proof -
  have "0 \<le> catcherColumn h \<and> catcherColumn h \<le> 4" if "run ops cs (Game_new s') = Some h"
    using engineInv_reachable [OF that] by (simp add: engineInv_def catcherOk_def)
  then show ?thesis
    by (auto simp: Game_new_def reset_def moveLeft_def moveRight_def)
qed

theorem catcher_moves_within_bounds_witness:
  "moveRight fresh1 = (True, fresh1\<lparr>catcherColumn := 3\<rparr>)
   \<and> moveLeft fresh1 = (True, fresh1\<lparr>catcherColumn := 1\<rparr>)
   \<and> moveRight (fresh1\<lparr>catcherColumn := 4\<rparr>) = (False, fresh1\<lparr>catcherColumn := 4\<rparr>)
   \<and> moveLeft paused_state = (False, paused_state)
   \<and> run hundredths (calls1 @ calls2) (Game_new 1) = Some state2
   \<and> 0 \<le> catcherColumn state2 \<and> catcherColumn state2 \<le> 4"
  using catcher_moves_within_bounds [of 1 fresh1 hundredths "calls1 @ calls2" 1 state2]
    catcher_moves_within_bounds [of 1 "fresh1\<lparr>catcherColumn := 4\<rparr>" hundredths "[]" 1 fresh1]
    catcher_moves_within_bounds [of 1 paused_state hundredths "[]" 1 fresh1]
    run_sample
  by (simp add: fresh1_def Game_new_def reset_def paused_state_def)

end
